theory Spec2Isabelle
  imports Main
begin

section \<open>The endpoint tables of \<open>const.py\<close>\<close>

text \<open>
  The endpoint paths and the field names are string constants. \<open>ITEM_LOOKUP\<close> is a
  dictionary literal from endpoint to the list of its items; its \<open>items()\<close> come in the
  order of the literal, so it is kept as an association list. The list of
  \<open>ENDPOINT_PRODUCTS\<close> holds one dictionary instead of strings, hence the two kinds of item.
\<close>

definition ENDPOINT_BATTERY_INFO :: string where
  "ENDPOINT_BATTERY_INFO = ''/api/v1/products/battery-info''"

definition ENDPOINT_DAILY_USAGE :: string where
  "ENDPOINT_DAILY_USAGE = ''/api/v1/products/voiceaccess/dailyusage''"

definition ENDPOINT_VA_CHARGE_TIME :: string where
  "ENDPOINT_VA_CHARGE_TIME = ''/api/v1/products/voiceaccess/chargetime''"

definition ENDPOINT_VA_CHAIR_STATUS :: string where
  "ENDPOINT_VA_CHAIR_STATUS = ''/api/v1/products/voiceaccess/chairstatus''"

definition ENDPOINT_VA_USAGE_RECORDS :: string where
  "ENDPOINT_VA_USAGE_RECORDS = ''/api/v1/products/voiceaccess/usagerecords''"

definition ENDPOINT_PRODUCTS :: string where
  "ENDPOINT_PRODUCTS = ''/api/v1/products''"

datatype item = IStr string | IDict "(string \<times> string list) list"

definition BATTERY_ITEMS :: "item list" where
  "BATTERY_ITEMS =
     [IStr ''stateOfHealth'', IStr ''stateOfCharge'', IStr ''charging'',
      IStr ''chargeTimeLeft'', IStr ''distanceLeft'', IStr ''localDistanceLeft'',
      IStr ''indoorDriveTime'', IStr ''maxIndoorDriveTime'', IStr ''distanceUnit'',
      IStr ''maxAmpereHours'', IStr ''ampereHoursLeft'', IStr ''maxDistanceLeft'',
      IStr ''localTimestamp'', IStr ''localTimestamp'']"

definition USAGE_ITEMS :: "item list" where
  "USAGE_ITEMS = [IStr ''distance'', IStr ''distanceUnit'', IStr ''adjustments'']"

definition CHARGE_ITEMS :: "item list" where
  "CHARGE_ITEMS =
     [IStr ''unknown'', IStr ''chargingNow'', IStr ''chargeTimeLeft'',
      IStr ''minutes'', IStr ''hours'']"

definition STATUS_ITEMS :: "item list" where
  "STATUS_ITEMS = [IStr ''status'']"

definition RECORDS_ITEMS :: "item list" where
  "RECORDS_ITEMS =
     [IStr ''distanceRecord'', IStr ''distanceUnit'', IStr ''distanceRecordDate'',
      IStr ''seatingRecord'', IStr ''seatingRecordDate'']"

definition PRODUCTS_ITEMS :: "item list" where
  "PRODUCTS_ITEMS =
     [IDict [(''_id'',
        [''WCSerial'', ''BrandId'', ''Model'', ''Manufactured'', ''ICSHardware'',
         ''Status'', ''previousStatus'', ''customerCode'', ''hideGPSPosition'',
         ''Contract'', ''LinNodes'', ''lastUpdated'', ''mostRecent'', ''battery'',
         ''serviceAgreements'', ''customizations'', ''functions'', ''deleted'',
         ''__v'', ''createdAt'', ''updatedAt'', ''FirstUse'', ''timezone'',
         ''PCSerial'', ''telecom'', ''unitType'', ''permocellInfo'', ''publicKey'',
         ''publicKeyDate'', ''correlationIdCounter'', ''certificates''])]]"

definition ITEM_LOOKUP :: "(string \<times> item list) list" where
  "ITEM_LOOKUP =
     [(ENDPOINT_BATTERY_INFO, BATTERY_ITEMS),
      (ENDPOINT_DAILY_USAGE, USAGE_ITEMS),
      (ENDPOINT_VA_CHARGE_TIME, CHARGE_ITEMS),
      (ENDPOINT_VA_CHAIR_STATUS, STATUS_ITEMS),
      (ENDPOINT_VA_USAGE_RECORDS, RECORDS_ITEMS),
      (ENDPOINT_PRODUCTS, PRODUCTS_ITEMS)]"

text \<open>
  \<open>ENDPOINT_LOOKUP\<close> is the dictionary comprehension
  \<^verbatim>\<open>{item: endpoint for endpoint, items in list(ITEM_LOOKUP.items())[::-1]
                   for item in items if isinstance(item, str)}\<close>.
  \<open>comprehension_pairs\<close> lists the (key, value) pairs in the order the comprehension
  produces them; \<open>dict_of\<close> stores them one after the other, a later pair overwriting an
  earlier one with the same key.
\<close>

fun str_items :: "item list \<Rightarrow> string list" where
  "str_items [] = []"
| "str_items (IStr s # its) = s # str_items its"
| "str_items (IDict d # its) = str_items its"

definition comprehension_pairs :: "(string \<times> item list) list \<Rightarrow> (string \<times> string) list" where
  "comprehension_pairs tbl =
     concat (map (\<lambda>(endpoint, items). map (\<lambda>i. (i, endpoint)) (str_items items)) (rev tbl))"

definition dict_of :: "('k \<times> 'v) list \<Rightarrow> ('k \<rightharpoonup> 'v)" where
  "dict_of kvs = foldl (\<lambda>d (k, v). d(k \<mapsto> v)) Map.empty kvs"

definition endpoint_lookup_of :: "(string \<times> item list) list \<Rightarrow> (string \<rightharpoonup> string)" where
  "endpoint_lookup_of tbl = dict_of (comprehension_pairs tbl)"

definition ENDPOINT_LOOKUP :: "string \<rightharpoonup> string" where
  "ENDPOINT_LOOKUP = endpoint_lookup_of ITEM_LOOKUP"

text \<open>The endpoints that declare a field, in declaration order.\<close>

definition declaring :: "(string \<times> item list) list \<Rightarrow> string \<Rightarrow> string list" where
  "declaring tbl f = map fst (filter (\<lambda>(endpoint, items). IStr f \<in> set items) tbl)"

section \<open>Python values and exceptions\<close>

text \<open>
  The values the client handles: parsed JSON bodies, header dictionaries, flags, and the
  client object itself, which Python prints by its address. A dictionary is the list of
  its items in insertion order. Strings are sequences of code points below 256; floating
  point numbers are left out.
\<close>

datatype pyval =
    PNone
  | PBool bool
  | PInt int
  | PStr string
  | PList "pyval list"
  | PDict "(string \<times> pyval) list"
  | PObj nat

text \<open>Truth value testing, as in \<open>if cached_data:\<close>.\<close>

fun truthy :: "pyval \<Rightarrow> bool" where
  "truthy PNone = False"
| "truthy (PBool b) = b"
| "truthy (PInt i) = (i \<noteq> 0)"
| "truthy (PStr s) = (s \<noteq> [])"
| "truthy (PList vs) = (vs \<noteq> [])"
| "truthy (PDict kvs) = (kvs \<noteq> [])"
| "truthy (PObj a) = True"

text \<open>
  The exception classes of \<open>mypermobil.py\<close>, with their argument, and the built-in
  exceptions that the modelled code can raise. \<open>asyncio.CancelledError\<close>, raised in a
  caller that is cancelled while it waits, is a \<open>BaseException\<close> and no
  \<open>Exception\<close>: \<open>except Exception\<close> does not catch it.
\<close>

datatype error =
    MyPermobilClientException string
  | MyPermobilAPIException pyval
  | MyPermobilConnectionException string
  | KeyError string
  | AttributeError string
  | CancelledError

fun is_exception :: "error \<Rightarrow> bool" where
  "is_exception CancelledError = False"
| "is_exception e = True"

text \<open>\<open>d.get(key, default)\<close>; on a value that is no dictionary there is no \<open>get\<close>.\<close>

fun py_get :: "pyval \<Rightarrow> string \<Rightarrow> pyval \<Rightarrow> error + pyval" where
  "py_get (PDict kvs) k dflt = (case map_of kvs k of None \<Rightarrow> Inr dflt | Some v \<Rightarrow> Inr v)"
| "py_get v k dflt = Inl (AttributeError ''get'')"

section \<open>Regular expressions\<close>

text \<open>
  \<open>re.match(pattern, s)\<close> succeeds when some prefix of \<open>s\<close> matches the pattern. The
  patterns are matched by derivatives. \<open>NotChr c\<close> is the class \<open>[^c]\<close>, which in Python
  also matches a newline.
\<close>

datatype regex =
    Zero
  | One
  | Chr char
  | NotChr char
  | Seq regex regex
  | Alt regex regex
  | Star regex

definition Plus :: "regex \<Rightarrow> regex" where
  "Plus r = Seq r (Star r)"

fun nullable :: "regex \<Rightarrow> bool" where
  "nullable Zero = False"
| "nullable One = True"
| "nullable (Chr c) = False"
| "nullable (NotChr c) = False"
| "nullable (Seq r s) = (nullable r \<and> nullable s)"
| "nullable (Alt r s) = (nullable r \<or> nullable s)"
| "nullable (Star r) = True"

fun deriv :: "char \<Rightarrow> regex \<Rightarrow> regex" where
  "deriv a Zero = Zero"
| "deriv a One = Zero"
| "deriv a (Chr c) = (if a = c then One else Zero)"
| "deriv a (NotChr c) = (if a = c then Zero else One)"
| "deriv a (Seq r s) =
     (if nullable r then Alt (Seq (deriv a r) s) (deriv a s) else Seq (deriv a r) s)"
| "deriv a (Alt r s) = Alt (deriv a r) (deriv a s)"
| "deriv a (Star r) = Seq (deriv a r) (Star r)"

fun re_match :: "regex \<Rightarrow> string \<Rightarrow> bool" where
  "re_match r [] = nullable r"
| "re_match r (a # s) = (nullable r \<or> re_match (deriv a r) s)"

text \<open>\<open>EMAIL_REGEX = r"[^@]+@[^@]+\.[^@]+"\<close>\<close>

definition EMAIL_REGEX :: regex where
  "EMAIL_REGEX =
     Seq (Plus (NotChr CHR ''@'')) (Seq (Chr CHR ''@'')
       (Seq (Plus (NotChr CHR ''@'')) (Seq (Chr CHR ''.'') (Plus (NotChr CHR ''@'')))))"

section \<open>The validators\<close>

text \<open>
  The standard library's clock and date conversions are parameters of the model. A
  \<open>datetime\<close> is a count of microseconds; \<open>strptime\<close> is
  \<open>datetime.strptime(s, "%Y-%m-%d")\<close>, with \<open>None\<close> for its \<open>ValueError\<close>, and
  \<open>strftime\<close> is \<open>d.strftime("%Y-%m-%d")\<close>.
\<close>

type_synonym datetime = int

record pylib =
  now :: datetime
  strptime :: "string \<Rightarrow> datetime option"
  strftime :: "datetime \<Rightarrow> string"

definition timedelta_days :: "int \<Rightarrow> int" where
  "timedelta_days d = d * 86400000000"

text \<open>
  An argument of type \<open>str\<close> may be \<open>None\<close>; \<open>not x\<close> holds for \<open>None\<close> and for the
  empty string.
\<close>

definition falsy :: "string option \<Rightarrow> bool" where
  "falsy x = (case x of None \<Rightarrow> True | Some s \<Rightarrow> s = [])"

definition validate_email :: "string option \<Rightarrow> error + string" where
  "validate_email email =
     (case email of
        None \<Rightarrow> Inl (MyPermobilClientException ''Missing email'')
      | Some e \<Rightarrow>
          if e = [] then Inl (MyPermobilClientException ''Missing email'')
          else if \<not> re_match EMAIL_REGEX e then Inl (MyPermobilClientException ''Invalid email'')
          else Inr e)"

text \<open>
  \<open>str.isdigit\<close> on code points below 256: the ASCII digits and the superscripts
  two, three and one.
\<close>

definition isdigit_char :: "char \<Rightarrow> bool" where
  "isdigit_char c =
     (let n = (of_char c :: nat)
      in (48 \<le> n \<and> n \<le> 57) \<or> n = 178 \<or> n = 179 \<or> n = 185)"

definition isdigit :: "string \<Rightarrow> bool" where
  "isdigit s = (s \<noteq> [] \<and> list_all isdigit_char s)"

text \<open>
  The code is declared a \<open>str\<close> in \<open>validate_code\<close> and in \<open>__init__\<close>, and an
  \<open>int\<close> in \<open>set_code\<close> and \<open>request_application_token\<close>, so the argument is any
  value. \<open>not code\<close> holds for \<open>None\<close>, the empty string and zero; a value that is
  no string has no \<open>isdigit\<close>.
\<close>

definition validate_code :: "pyval \<Rightarrow> error + string" where
  "validate_code code =
     (if \<not> truthy code then Inl (MyPermobilClientException ''Missing code'')
      else (case code of
              PStr c \<Rightarrow>
                if \<not> isdigit c then Inl (MyPermobilClientException ''Code must be a number'')
                else if length c \<noteq> 6 then
                  Inl (MyPermobilClientException ''Code must be 6 digits long'')
                else Inr c
            | _ \<Rightarrow> Inl (AttributeError ''isdigit'')))"

definition validate_token :: "string option \<Rightarrow> error + string" where
  "validate_token token =
     (case token of
        None \<Rightarrow> Inl (MyPermobilClientException ''Missing token'')
      | Some t \<Rightarrow>
          if t = [] then Inl (MyPermobilClientException ''Missing token'')
          else if length t \<noteq> 256 then Inl (MyPermobilClientException ''Invalid token'')
          else Inr t)"

definition validate_expiration_date :: "pylib \<Rightarrow> string option \<Rightarrow> error + string" where
  "validate_expiration_date lib expiration_date =
     (case expiration_date of
        None \<Rightarrow> Inl (MyPermobilClientException ''Missing expiration date'')
      | Some d \<Rightarrow>
          if d = [] then Inl (MyPermobilClientException ''Missing expiration date'')
          else (case strptime lib d of
                  None \<Rightarrow> Inl (MyPermobilClientException ''Invalid expiration date'')
                | Some date \<Rightarrow>
                    if date < now lib then Inl (MyPermobilClientException ''Expired token'')
                    else Inr d))"

definition startswith :: "string \<Rightarrow> string \<Rightarrow> bool" where
  "startswith s p = (take (length p) s = p)"

definition validate_region :: "string option \<Rightarrow> error + string" where
  "validate_region region =
     (case region of
        None \<Rightarrow> Inl (MyPermobilClientException ''Missing region'')
      | Some r \<Rightarrow>
          if r = [] then Inl (MyPermobilClientException ''Missing region'')
          else if \<not> startswith r ''https://'' \<and> \<not> startswith r ''http://'' then
            Inl (MyPermobilClientException ''Region missing protocol'')
          else Inr r)"

section \<open>The client object\<close>

text \<open>
  The attributes of a \<open>MyPermobil\<close> object, the HTTP session left out. A method returns
  what it returns or raises (\<open>Inl\<close> the exception) together with the object afterwards.
\<close>

record client =
  application :: "string option"
  email :: "string option"
  region :: "string option"
  code :: "string option"
  token :: "string option"
  expiration_date :: "string option"
  request_timeout :: int
  authenticated :: bool

definition init :: "string option \<Rightarrow> string option \<Rightarrow> string option \<Rightarrow> string option \<Rightarrow>
    string option \<Rightarrow> string option \<Rightarrow> client" where
  "init app em reg cd tok exp =
     \<lparr>application = app, email = em, region = reg, code = cd, token = tok,
      expiration_date = exp, request_timeout = 10, authenticated = False\<rparr>"

definition str_opt :: "string option \<Rightarrow> string" where
  "str_opt x = (case x of None \<Rightarrow> ''None'' | Some s \<Rightarrow> s)"

definition headers :: "client \<Rightarrow> error + (string \<times> pyval) list" where
  "headers self =
     (if \<not> authenticated self then Inl (MyPermobilClientException ''Not authenticated'')
      else Inr [(''Authorization'', PStr (''Bearer '' @ str_opt (token self)))])"

definition set_email :: "string option \<Rightarrow> client \<Rightarrow> (error + unit) \<times> client" where
  "set_email v self =
     (if authenticated self then
        (Inl (MyPermobilClientException ''Cannot change email after authentication''), self)
      else (case validate_email v of
              Inl e \<Rightarrow> (Inl e, self)
            | Inr x \<Rightarrow> (Inr (), self\<lparr>email := Some x\<rparr>)))"

definition set_region :: "string option \<Rightarrow> client \<Rightarrow> (error + unit) \<times> client" where
  "set_region v self =
     (if authenticated self then
        (Inl (MyPermobilClientException ''Cannot change region after authentication''), self)
      else (case validate_region v of
              Inl e \<Rightarrow> (Inl e, self)
            | Inr x \<Rightarrow> (Inr (), self\<lparr>region := Some x\<rparr>)))"

definition set_code :: "pyval \<Rightarrow> client \<Rightarrow> (error + unit) \<times> client" where
  "set_code v self =
     (if authenticated self then
        (Inl (MyPermobilClientException ''Cannot change code after authentication''), self)
      else (case validate_code v of
              Inl e \<Rightarrow> (Inl e, self)
            | Inr x \<Rightarrow> (Inr (), self\<lparr>code := Some x\<rparr>)))"

definition set_token :: "string option \<Rightarrow> client \<Rightarrow> (error + unit) \<times> client" where
  "set_token v self =
     (if authenticated self then
        (Inl (MyPermobilClientException ''Cannot change token after authentication''), self)
      else (case validate_token v of
              Inl e \<Rightarrow> (Inl e, self)
            | Inr x \<Rightarrow> (Inr (), self\<lparr>token := Some x\<rparr>)))"

definition set_expiration_date ::
    "pylib \<Rightarrow> string option \<Rightarrow> client \<Rightarrow> (error + unit) \<times> client" where
  "set_expiration_date lib v self =
     (if authenticated self then
        (Inl (MyPermobilClientException ''Cannot change date after authentication''), self)
      else (case validate_expiration_date lib v of
              Inl e \<Rightarrow> (Inl e, self)
            | Inr x \<Rightarrow> (Inr (), self\<lparr>expiration_date := Some x\<rparr>)))"

definition set_application :: "string option \<Rightarrow> client \<Rightarrow> (error + unit) \<times> client" where
  "set_application v self =
     (if authenticated self then
        (Inl (MyPermobilClientException ''Cannot change app after authentication''), self)
      else (Inr (), self\<lparr>application := v\<rparr>))"

definition self_authenticate :: "pylib \<Rightarrow> client \<Rightarrow> (error + unit) \<times> client" where
  "self_authenticate lib self =
     (if authenticated self then
        (Inl (MyPermobilClientException ''Already authenticated''), self)
      else if falsy (application self) then
        (Inl (MyPermobilClientException ''Missing application name''), self)
      else (case validate_region (region self) of
          Inl e \<Rightarrow> (Inl e, self)
        | Inr _ \<Rightarrow> (case validate_email (email self) of
            Inl e \<Rightarrow> (Inl e, self)
          | Inr _ \<Rightarrow> (case validate_token (token self) of
              Inl e \<Rightarrow> (Inl e, self)
            | Inr _ \<Rightarrow> (case validate_expiration_date lib (expiration_date self) of
                Inl e \<Rightarrow> (Inl e, self)
              | Inr _ \<Rightarrow> (Inr (), self\<lparr>authenticated := True\<rparr>))))))"

definition deauthenticate :: "client \<Rightarrow> (error + unit) \<times> client" where
  "deauthenticate self =
     (if \<not> authenticated self then
        (Inl (MyPermobilClientException ''Not authenticated''), self)
      else (Inr (), self))"

section \<open>Requests\<close>

text \<open>
  The HTTP transport is outside the repository: what \<open>session.post\<close> does is a value
  of \<open>transport\<close>, a response or one of the exceptions that \<open>post_request\<close> tells
  apart (in the order of its \<open>except\<close> clauses).
\<close>

record response =
  status :: int
  json :: pyval
  body_text :: string

datatype transport =
    Response response
  | ClientConnectorError
  | TimeoutError
  | ClientError
  | OtherException

type_synonym http =
  "string \<Rightarrow> pyval \<Rightarrow> (string \<times> pyval) list option \<Rightarrow> int \<Rightarrow> transport"

definition post_request :: "http \<Rightarrow> client \<Rightarrow> string \<Rightarrow> pyval \<Rightarrow> error + response" where
  "post_request post self url body =
     (let hdrs = (if authenticated self
                  then Some [(''Authorization'', PStr (''Bearer '' @ str_opt (token self)))]
                  else None)
      in case post url body hdrs (request_timeout self) of
           Response r \<Rightarrow> Inr r
         | ClientConnectorError \<Rightarrow> Inl (MyPermobilConnectionException ''Connection error'')
         | TimeoutError \<Rightarrow> Inl (MyPermobilConnectionException ''Connection timeout'')
         | ClientError \<Rightarrow> Inl (MyPermobilConnectionException ''Client error'')
         | OtherException \<Rightarrow> Inl (MyPermobilAPIException (PStr ''Unknown error'')))"

definition ENDPOINT_APPLICATIONAUTHENTICATIONS :: string where
  "ENDPOINT_APPLICATIONAUTHENTICATIONS = ''/api/v1/users/applicationauthentications''"

definition or_else :: "string option \<Rightarrow> string option \<Rightarrow> string option" where
  "or_else arg dflt = (case arg of None \<Rightarrow> dflt | Some x \<Rightarrow> Some x)"

definition py_opt :: "string option \<Rightarrow> pyval" where
  "py_opt x = (case x of None \<Rightarrow> PNone | Some s \<Rightarrow> PStr s)"

definition code_or_else :: "pyval \<Rightarrow> string option \<Rightarrow> pyval" where
  "code_or_else arg dflt = (case arg of PNone \<Rightarrow> py_opt dflt | v \<Rightarrow> v)"

text \<open>
  \<open>request_application_token\<close>: the arguments \<open>email\<close>, \<open>code\<close>, \<open>region\<close> and
  \<open>application\<close> default to the attributes of the object; \<open>expiration_date\<close> does not.
\<close>

definition request_application_token ::
    "pylib \<Rightarrow> http \<Rightarrow> client \<Rightarrow> string option \<Rightarrow> pyval \<Rightarrow> string option \<Rightarrow>
     string option \<Rightarrow> string option \<Rightarrow> error + (pyval \<times> string)" where
  "request_application_token lib post self email_arg code_arg region_arg application_arg
       expiration_arg =
     (let email0 = or_else email_arg (email self);
          code0 = code_or_else code_arg (code self);
          region0 = or_else region_arg (region self);
          application0 = or_else application_arg (application self)
      in if authenticated self then Inl (MyPermobilClientException ''Already authenticated'')
      else (case validate_email email0 of
          Inl e \<Rightarrow> Inl e
        | Inr email1 \<Rightarrow> (case validate_region region0 of
            Inl e \<Rightarrow> Inl e
          | Inr region1 \<Rightarrow> (case validate_code code0 of
              Inl e \<Rightarrow> Inl e
            | Inr code1 \<Rightarrow>
                (case post_request post self (region1 @ ENDPOINT_APPLICATIONAUTHENTICATIONS)
                        (PDict [(''username'', PStr email1), (''code'', PStr code1),
                                (''application'', py_opt application0),
                                (''expirationDate'', py_opt expiration_arg)]) of
                   Inl e \<Rightarrow> Inl e
                 | Inr resp \<Rightarrow>
                     if status resp = 200 then
                       (case py_get (json resp) ''token'' PNone of
                          Inl e \<Rightarrow> Inl e
                        | Inr tok \<Rightarrow>
                            Inr (tok, case expiration_arg of
                                   None \<Rightarrow> strftime lib (now lib + timedelta_days 365)
                                 | Some d \<Rightarrow> d))
                     else if status resp = 401 then
                       Inl (MyPermobilAPIException (PStr ''Email not registered for region''))
                     else if status resp = 403 then
                       Inl (MyPermobilAPIException (PStr ''Incorrect code''))
                     else if status resp = 400 \<or> status resp = 500 then
                       (case py_get (json resp) ''error'' (json resp) of
                          Inl e \<Rightarrow> Inl e
                        | Inr m \<Rightarrow> Inl (MyPermobilAPIException m))
                     else Inl (MyPermobilAPIException (PStr (body_text resp))))))))"

text \<open>
  \<open>request_item\<close>, lines 417 to 426: the endpoint that will be requested for an item,
  or the exception raised before any request. \<open>endpoint not in ENDPOINT_LOOKUP\<close> tests
  the keys of \<open>ENDPOINT_LOOKUP\<close>; \<open>ITEM_LOOKUP[endpoint]\<close> raises \<open>KeyError\<close> on a
  missing key.
\<close>

definition request_item_endpoint :: "string \<Rightarrow> string option \<Rightarrow> error + string" where
  "request_item_endpoint item endpoint =
     (case (case endpoint of
              None \<Rightarrow>
                (case ENDPOINT_LOOKUP item of
                   None \<Rightarrow> Inl (MyPermobilClientException (''No endpoint for item: '' @ item))
                 | Some e \<Rightarrow> Inr e)
            | Some e \<Rightarrow>
                if ENDPOINT_LOOKUP e = None
                then Inl (MyPermobilClientException (''Invalid endpoint '' @ e))
                else Inr e) of
        Inl err \<Rightarrow> Inl err
      | Inr e \<Rightarrow>
          (case map_of ITEM_LOOKUP e of
             None \<Rightarrow> Inl (KeyError e)
           | Some items \<Rightarrow>
               if IStr item \<notin> set items
               then Inl (MyPermobilClientException (item @ '' not in endpoint '' @ e))
               else Inr e))"

definition request_item ::
    "(string \<Rightarrow> (string \<times> pyval) list \<Rightarrow> error + pyval) \<Rightarrow> client \<Rightarrow> string \<Rightarrow>
     string option \<Rightarrow> (string \<times> pyval) list option \<Rightarrow> error + pyval" where
  "request_item request_endpoint self item endpoint hdrs =
     (case (case hdrs of None \<Rightarrow> headers self | Some h \<Rightarrow> Inr h) of
        Inl err \<Rightarrow> Inl err
      | Inr h \<Rightarrow>
          (case request_item_endpoint item endpoint of
             Inl err \<Rightarrow> Inl err
           | Inr e \<Rightarrow>
               (case request_endpoint e h of
                  Inl err \<Rightarrow> Inl err
                | Inr resp \<Rightarrow> py_get resp item PNone)))"

text \<open>The four validations of \<open>self_authenticate\<close>.\<close>

definition all_valid :: "pylib \<Rightarrow> client \<Rightarrow> bool" where
  "all_valid lib self =
     (\<not> isl (validate_region (region self)) \<and> \<not> isl (validate_email (email self))
      \<and> \<not> isl (validate_token (token self))
      \<and> \<not> isl (validate_expiration_date lib (expiration_date self)))"

section \<open>The cache and the \<open>cacheable\<close> wrapper\<close>

text \<open>
  \<open>CACHE\<close> is the in-memory store of the \<open>aiocache\<close> library, which is outside the
  repository. Its interface: \<open>set(key, value, ttl)\<close> stores an entry that lasts \<open>ttl\<close>
  seconds, and \<open>get(key)\<close> gives the stored object, or \<open>None\<close> when there is no entry or
  it has expired. Time is counted in seconds. An entry stored at time \<open>t\<close> is there at
  every time before \<open>t + ttl\<close> and gone from \<open>t + ttl\<close> on. A stored object is a value
  or an exception object.
\<close>

definition CACHE_TTL :: nat where
  "CACHE_TTL = 5 * 60"

definition CACHE_ERROR_TTL :: nat where
  "CACHE_ERROR_TTL = 10"

datatype cached = CExc error | CVal pyval

type_synonym store = "string \<rightharpoonup> cached \<times> nat"

definition CACHE_get :: "store \<Rightarrow> nat \<Rightarrow> string \<Rightarrow> cached" where
  "CACHE_get c t key =
     (case c key of
        None \<Rightarrow> CVal PNone
      | Some (v, expires) \<Rightarrow> if t < expires then v else CVal PNone)"

definition CACHE_set :: "string \<Rightarrow> cached \<Rightarrow> nat \<Rightarrow> nat \<Rightarrow> store \<Rightarrow> store" where
  "CACHE_set key v ttl t c = c(key \<mapsto> (v, t + ttl))"

definition async_get_cache :: "store \<Rightarrow> nat \<Rightarrow> string \<Rightarrow> error + pyval" where
  "async_get_cache c t key =
     (case CACHE_get c t key of CExc e \<Rightarrow> Inl e | CVal v \<Rightarrow> Inr v)"

text \<open>
  The state that the wrapper works on: the store, the dictionary \<open>CACHE_LOCKS\<close> from key
  to \<open>asyncio.Event\<close>, the flags of the events created so far (an event is its index),
  and the trace of the effects in the order the code performs them.
\<close>

datatype effect =
    Fetch string
  | Stored string cached nat
  | GateNew string nat
  | GateSet nat
  | GateDel string

record world =
  CACHE :: store
  CACHE_LOCKS :: "string \<rightharpoonup> nat"
  events :: "bool list"
  trace :: "effect list"

definition fetches :: "string \<Rightarrow> world \<Rightarrow> nat" where
  "fetches key w = count_list (trace w) (Fetch key)"

text \<open>
  A call of the wrapper runs in pieces, between the points where it is suspended: the
  wrapped function in progress (line 77), the wait on the event of another caller
  (line 69). Reading and writing the in-memory store does not let another caller run.
  \<open>Done\<close> holds what the caller gets: the value returned or the exception raised.
\<close>

datatype caller =
    Ready
  | AwaitFetch string
  | AwaitGate string nat
  | Done "error + pyval"

text \<open>Lines 59 to 77: from the call up to the start of the wrapped function.\<close>

definition wrapper_start :: "string \<Rightarrow> nat \<Rightarrow> world \<Rightarrow> caller \<times> world" where
  "wrapper_start key t w =
     (case async_get_cache (CACHE w) t key of
        Inl e \<Rightarrow> (Done (Inl e), w)
      | Inr cached_data \<Rightarrow>
          if truthy cached_data then (Done (Inr cached_data), w)
          else (case CACHE_LOCKS w key of
                  Some ev \<Rightarrow> (AwaitGate key ev, w)
                | None \<Rightarrow>
                    (AwaitFetch key,
                     w\<lparr>CACHE_LOCKS := (CACHE_LOCKS w)(key \<mapsto> length (events w)),
                       events := events w @ [False],
                       trace := trace w @ [GateNew key (length (events w)), Fetch key]\<rparr>)))"

definition to_cached :: "error + pyval \<Rightarrow> cached" where
  "to_cached r = (case r of Inl e \<Rightarrow> CExc e | Inr v \<Rightarrow> CVal v)"

definition ttl_of :: "error + pyval \<Rightarrow> nat" where
  "ttl_of r = (case r of Inl e \<Rightarrow> CACHE_ERROR_TTL | Inr v \<Rightarrow> CACHE_TTL)"

text \<open>
  What \<open>try\<close> and \<open>except Exception\<close> store: a value returned, or an exception that
  is an \<open>Exception\<close>.
\<close>

definition is_stored :: "error + pyval \<Rightarrow> bool" where
  "is_stored r = (case r of Inl e \<Rightarrow> is_exception e | Inr v \<Rightarrow> True)"

text \<open>
  Lines 77 to 87: at time \<open>t\<close> the wrapped function has returned a value (\<open>Inr\<close>), or
  an exception has come out of it (\<open>Inl\<close>): one it raised, or the
  \<open>CancelledError\<close> of a caller cancelled while it awaited the function. A value is
  stored with \<open>CACHE_TTL\<close>, an \<open>Exception\<close> with \<open>CACHE_ERROR_TTL\<close>, anything else
  is not stored. In every case the \<open>finally\<close> clause then sets the event and deletes
  it from \<open>CACHE_LOCKS\<close>; a missing key there raises \<open>KeyError\<close>.
\<close>

definition store_result :: "string \<Rightarrow> error + pyval \<Rightarrow> nat \<Rightarrow> world \<Rightarrow> world" where
  "store_result key r t w =
     w\<lparr>CACHE := CACHE_set key (to_cached r) (ttl_of r) t (CACHE w),
       trace := trace w @ [Stored key (to_cached r) (ttl_of r)]\<rparr>"

definition release_gate :: "string \<Rightarrow> nat \<Rightarrow> world \<Rightarrow> world" where
  "release_gate key ev w =
     w\<lparr>events := (events w)[ev := True],
       CACHE_LOCKS := (CACHE_LOCKS w)(key := None),
       trace := trace w @ [GateSet ev, GateDel key]\<rparr>"

definition wrapper_finish :: "string \<Rightarrow> error + pyval \<Rightarrow> nat \<Rightarrow> world \<Rightarrow> caller \<times> world" where
  "wrapper_finish key r t w =
     (let w1 = (if is_stored r then store_result key r t w else w)
      in case CACHE_LOCKS w1 key of
           None \<Rightarrow> (Done (Inl (KeyError key)), w1)
         | Some ev \<Rightarrow> (Done r, release_gate key ev w1))"

text \<open>Lines 70 and 71: the wait is over, the caller reads the store.\<close>

definition wrapper_resume :: "string \<Rightarrow> nat \<Rightarrow> world \<Rightarrow> caller \<times> world" where
  "wrapper_resume key t w = (Done (async_get_cache (CACHE w) t key), w)"

text \<open>
  Callers interleave at the suspension points only. An event of a schedule names the
  caller that runs, and the time: a caller invokes the wrapper with a key, the wrapped
  function of a caller finishes with a result (or the caller is cancelled while it
  awaits it), or a caller waiting on an event that is set goes on. \<open>step\<close> is \<open>None\<close> when the caller is not at that point.
\<close>

datatype event =
    Invoke nat string nat
  | Complete nat "error + pyval" nat
  | Resume nat nat

type_synonym system = "(nat \<Rightarrow> caller) \<times> world"

fun step :: "event \<Rightarrow> system \<Rightarrow> system option" where
  "step (Invoke i key t) (cs, w) =
     (case cs i of
        Ready \<Rightarrow> (case wrapper_start key t w of (c, w') \<Rightarrow> Some (cs(i := c), w'))
      | _ \<Rightarrow> None)"
| "step (Complete i r t) (cs, w) =
     (case cs i of
        AwaitFetch key \<Rightarrow> (case wrapper_finish key r t w of (c, w') \<Rightarrow> Some (cs(i := c), w'))
      | _ \<Rightarrow> None)"
| "step (Resume i t) (cs, w) =
     (case cs i of
        AwaitGate key ev \<Rightarrow>
          if ev < length (events w) \<and> events w ! ev
          then (case wrapper_resume key t w of (c, w') \<Rightarrow> Some (cs(i := c), w'))
          else None
      | _ \<Rightarrow> None)"

fun run :: "event list \<Rightarrow> system \<Rightarrow> system option" where
  "run [] s = Some s"
| "run (e # es) s = (case step e s of None \<Rightarrow> None | Some s' \<Rightarrow> run es s')"

fun is_invoke :: "event \<Rightarrow> bool" where
  "is_invoke (Invoke i key t) = True"
| "is_invoke e = False"

text \<open>
  The callers of a schedule are concurrent when every call is made before the first
  wrapped function finishes.
\<close>

fun concurrent :: "event list \<Rightarrow> bool" where
  "concurrent [] = True"
| "concurrent (Complete i r t # es) = (\<not> list_ex is_invoke es)"
| "concurrent (e # es) = concurrent es"

text \<open>
  A schedule is prompt when every caller that goes on after a result was stored does so
  before that entry expires.
\<close>

fun before :: "nat \<Rightarrow> event \<Rightarrow> bool" where
  "before x (Resume i t) = (t < x)"
| "before x e = True"

fun prompt :: "event list \<Rightarrow> bool" where
  "prompt [] = True"
| "prompt (Complete i r t # es) =
     ((is_stored r \<longrightarrow> list_all (before (t + ttl_of r)) es) \<and> prompt es)"
| "prompt (e # es) = prompt es"

text \<open>The events of a schedule are those of two callers, who call with one key.\<close>

fun of_callers :: "nat \<Rightarrow> nat \<Rightarrow> string \<Rightarrow> event \<Rightarrow> bool" where
  "of_callers a b key (Invoke i k t) = ((i = a \<or> i = b) \<and> k = key)"
| "of_callers a b key (Complete i r t) = (i = a \<or> i = b)"
| "of_callers a b key (Resume i t) = (i = a \<or> i = b)"

definition world0 :: world where
  "world0 = \<lparr>CACHE = Map.empty, CACHE_LOCKS = Map.empty, events = [], trace = []\<rparr>"

section \<open>Invariants of the callers\<close>

text \<open>
  In every reachable state a caller whose wrapped function is in progress has its event
  registered in \<open>CACHE_LOCKS\<close>, no two such callers share a key, and every
  registered event exists.
\<close>

definition leaders_ok :: "system \<Rightarrow> bool" where
  "leaders_ok s =
     (case s of (cs, w) \<Rightarrow>
        (\<forall>i key. cs i = AwaitFetch key \<longrightarrow> CACHE_LOCKS w key \<noteq> None)
        \<and> (\<forall>i j key. cs i = AwaitFetch key \<longrightarrow> cs j = AwaitFetch key \<longrightarrow> i = j)
        \<and> (\<forall>key ev. CACHE_LOCKS w key = Some ev \<longrightarrow> ev < length (events w)))"

text \<open>
  The phases of two callers \<open>a\<close> and \<open>b\<close> with one key, \<open>n\<close> fetches of that key
  having been made before: nobody has called; one caller leads and its wrapped function
  is in progress, the other has not called or waits on the leader's event; the leader is
  done with \<open>r\<close>, which, if it is a result that is stored, is in the store until \<open>x\<close>,
  and the other caller has not called, or waits on an event that is set, or has read the
  store.
\<close>

definition idle :: "nat \<Rightarrow> nat \<Rightarrow> string \<Rightarrow> nat \<Rightarrow> system \<Rightarrow> bool" where
  "idle a b key n s =
     (case s of (cs, w) \<Rightarrow>
        cs a = Ready \<and> cs b = Ready \<and> CACHE w key = None \<and> CACHE_LOCKS w key = None
        \<and> fetches key w = n)"

definition inflight :: "nat \<Rightarrow> nat \<Rightarrow> string \<Rightarrow> nat \<Rightarrow> system \<Rightarrow> bool" where
  "inflight a b key n s =
     (case s of (cs, w) \<Rightarrow>
        \<exists>l f ev. (l = a \<and> f = b \<or> l = b \<and> f = a) \<and> cs l = AwaitFetch key
          \<and> (cs f = Ready \<or> cs f = AwaitGate key ev)
          \<and> CACHE w key = None \<and> CACHE_LOCKS w key = Some ev
          \<and> ev < length (events w) \<and> \<not> events w ! ev \<and> fetches key w = Suc n)"

definition observed :: "error + pyval \<Rightarrow> error + pyval" where
  "observed r = (if is_stored r then r else Inr PNone)"

definition landed ::
    "nat \<Rightarrow> nat \<Rightarrow> string \<Rightarrow> nat \<Rightarrow> error + pyval \<Rightarrow> nat \<Rightarrow> system \<Rightarrow> bool" where
  "landed a b key n r x s =
     (case s of (cs, w) \<Rightarrow>
        \<exists>l f. (l = a \<and> f = b \<or> l = b \<and> f = a) \<and> cs l = Done r
          \<and> (cs f = Ready
              \<or> (\<exists>ev. cs f = AwaitGate key ev \<and> ev < length (events w) \<and> events w ! ev)
              \<or> cs f = Done (observed r))
          \<and> CACHE w key = (if is_stored r then Some (to_cached r, x) else None)
          \<and> fetches key w = Suc n)"

text \<open>Example schedules.\<close>

definition schedule0 :: "event list" where
  "schedule0 =
     [Invoke 0 ''k'' 0, Invoke 1 ''k'' 1, Complete 0 (Inr (PDict [(''a'', PInt 1)])) 2,
      Resume 1 3]"

definition schedule1 :: "event list" where
  "schedule1 = [Invoke 0 ''k'' 0, Complete 0 (Inr (PDict [])) 1, Invoke 1 ''k'' 2]"

definition schedule2 :: "event list" where
  "schedule2 = [Invoke 0 ''k'' 0, Invoke 1 ''k'' 1]"

definition schedule3 :: "event list" where
  "schedule3 =
     [Invoke 0 ''k'' 0, Invoke 1 ''k'' 1, Complete 0 (Inl CancelledError) 2, Resume 1 3]"

definition schedule4 :: "event list" where
  "schedule4 = [Invoke 0 ''k'' 0, Invoke 1 ''k'' 0, Complete 0 (Inl CancelledError) 1]"

definition schedule5 :: "event list" where
  "schedule5 =
     [Invoke 0 ''k'' 0, Invoke 1 ''k'' 1,
      Complete 0 (Inl (MyPermobilAPIException (PStr ''maintenance''))) 2, Resume 1 12]"

definition schedule6 :: "event list" where
  "schedule6 =
     [Invoke 0 ''k'' 0, Invoke 1 ''k'' 1, Complete 0 (Inr (PDict [(''a'', PInt 1)])) 2,
      Resume 1 302]"

text \<open>
  What is seen of a run from the empty state: the two callers, the entry of the key, the
  event of the first gate, the number of fetches.
\<close>

definition start :: system where
  "start = (\<lambda>i. Ready, world0)"

definition observe ::
    "string \<Rightarrow> system option \<Rightarrow> (caller \<times> caller \<times> (cached \<times> nat) option \<times> bool list \<times> nat) option" where
  "observe key s =
     map_option (\<lambda>(cs, w). (cs 0, cs 1, CACHE w key, events w, fetches key w)) s"

section \<open>Example objects\<close>

text \<open>A clock at 1000 that reads one date, in the future, and prints one date.\<close>

definition lib0 :: pylib where
  "lib0 = \<lparr>now = 1000,
           strptime = (\<lambda>s. if s = ''2999-12-31'' then Some 2000 else None),
           strftime = (\<lambda>d. ''2027-11-03'')\<rparr>"

definition client0 :: client where
  "client0 = init (Some ''app'') (Some ''a@b.c'') (Some ''https://x'') (Some ''123456'')
     (Some (replicate 256 CHR ''t'')) (Some ''2999-12-31'')"

definition post0 :: http where
  "post0 = (\<lambda>url body hdrs timeout.
     Response \<lparr>status = 200, json = PDict [(''token'', PStr ''T'')], body_text = []\<rparr>)"

fun is_str_or_none :: "pyval \<Rightarrow> bool" where
  "is_str_or_none PNone = True"
| "is_str_or_none (PStr s) = True"
| "is_str_or_none v = False"

fun is_usage_error :: "error + 'a \<Rightarrow> bool" where
  "is_usage_error (Inl (MyPermobilClientException m)) = True"
| "is_usage_error r = False"


section \<open>The key of a cached call\<close>

text \<open>
  \<open>key = func.__name__ + str(args) + str(kwargs)\<close>. \<open>str\<close> of a tuple or of a
  dictionary is built from the \<open>repr\<close> of the elements. These are Python built-ins;
  the definitions below follow CPython: numbers in decimal, the address of an object in
  hexadecimal, a string between quotes with its quotes, backslashes and unprintable
  characters escaped.
\<close>

definition digit_chars :: string where
  "digit_chars = ''0123456789abcdef''"

function digits :: "nat \<Rightarrow> nat \<Rightarrow> string" where
  "digits b n =
     (if n < b \<or> b < 2 then [digit_chars ! n]
      else digits b (n div b) @ [digit_chars ! (n mod b)])"
  by pat_completeness auto

termination
  by (relation "measure snd") auto

declare digits.simps [simp del]

text \<open>
  The quote of a string is the double quote when the string has a single quote and no
  double quote, and the single quote otherwise.
\<close>

definition quote_of :: "string \<Rightarrow> char" where
  "quote_of s =
     (if CHR 0x27 \<in> set s \<and> CHR 0x22 \<notin> set s then CHR 0x22 else CHR 0x27)"

text \<open>
  Among the code points below 256, the unprintable ones are the control characters below
  32, 127 to 159, the no-break space 160 and the soft hyphen 173.
\<close>

definition unprintable :: "char \<Rightarrow> bool" where
  "unprintable c =
     (let n = (of_char c :: nat) in n < 32 \<or> (127 \<le> n \<and> n \<le> 160) \<or> n = 173)"

definition escape :: "char \<Rightarrow> char \<Rightarrow> string" where
  "escape q c =
     (if c = q \<or> c = CHR 0x5C then [CHR 0x5C, c]
      else if c = CHR 0x09 then [CHR 0x5C, CHR ''t'']
      else if c = CHR 0x0A then [CHR 0x5C, CHR ''n'']
      else if c = CHR 0x0D then [CHR 0x5C, CHR ''r'']
      else if unprintable c then
        [CHR 0x5C, CHR ''x'', digit_chars ! (of_char c div 16), digit_chars ! (of_char c mod 16)]
      else [c])"

definition repr_str :: "string \<Rightarrow> string" where
  "repr_str s = quote_of s # concat (map (escape (quote_of s)) s) @ [quote_of s]"

text \<open>The elements of a sequence are separated by a comma and a space.\<close>

fun join :: "string list \<Rightarrow> string" where
  "join [] = []"
| "join [x] = x"
| "join (x # y # ys) = x @ '', '' @ join (y # ys)"

fun py_repr :: "pyval \<Rightarrow> string" where
  "py_repr PNone = ''None''"
| "py_repr (PBool b) = (if b then ''True'' else ''False'')"
| "py_repr (PInt i) = (if i < 0 then CHR ''-'' # digits 10 (nat (- i)) else digits 10 (nat i))"
| "py_repr (PStr s) = repr_str s"
| "py_repr (PList vs) = ''['' @ join (map py_repr vs) @ '']''"
| "py_repr (PDict kvs) =
     ''{'' @ join (map (\<lambda>kv. repr_str (fst kv) @ '': '' @ py_repr (snd kv)) kvs) @ ''}''"
| "py_repr (PObj a) = ''<mypermobil.mypermobil.MyPermobil object at 0x'' @ digits 16 a @ ''>''"

text \<open>\<open>str(args)\<close> for the tuple of the positional arguments.\<close>

fun str_tuple :: "pyval list \<Rightarrow> string" where
  "str_tuple [] = ''()''"
| "str_tuple [x] = ''('' @ py_repr x @ '',)''"
| "str_tuple xs = ''('' @ join (map py_repr xs) @ '')''"

text \<open>
  Line 59. The keyword arguments are a dictionary with string keys, in the order of the
  call.
\<close>

definition cache_key :: "string \<Rightarrow> pyval list \<Rightarrow> (string \<times> pyval) list \<Rightarrow> string" where
  "cache_key name args kwargs = name @ str_tuple args @ py_repr (PDict kwargs)"

text \<open>
  What the proofs about the key read back from a printed value: the characters that can
  follow it, the number that a numeral stands for, the character that an escape sequence
  stands for, and the kind of the value, which the first character of its \<open>repr\<close>
  determines.
\<close>

definition stopc :: "char \<Rightarrow> bool" where
  "stopc c = (c = CHR '','' \<or> c = CHR '')'' \<or> c = CHR '']'' \<or> c = CHR ''}'')"

definition stop :: "string \<Rightarrow> bool" where
  "stop r = (case r of [] \<Rightarrow> True | c # _ \<Rightarrow> stopc c \<or> c = CHR ''>'')"

definition digit_index :: "char \<Rightarrow> nat" where
  "digit_index c = length (takeWhile (\<lambda>d. d \<noteq> c) digit_chars)"

definition numeral_value :: "nat \<Rightarrow> string \<Rightarrow> nat" where
  "numeral_value b s = foldl (\<lambda>a c. a * b + digit_index c) 0 s"

definition nodigit :: "string \<Rightarrow> bool" where
  "nodigit r = (r = [] \<or> hd r \<notin> set digit_chars)"

definition is_quote :: "char \<Rightarrow> bool" where
  "is_quote q = (q = CHR 0x27 \<or> q = CHR 0x22)"

definition unescape :: "string \<Rightarrow> char \<times> string" where
  "unescape x =
     (case x of
        [] \<Rightarrow> (CHR 0x00, [])
      | c # y \<Rightarrow>
          if c \<noteq> CHR 0x5C then (c, y)
          else (case y of
                  [] \<Rightarrow> (c, [])
                | k # z \<Rightarrow>
                    if k = CHR ''t'' then (CHR 0x09, z)
                    else if k = CHR ''n'' then (CHR 0x0A, z)
                    else if k = CHR ''r'' then (CHR 0x0D, z)
                    else if k = CHR ''x'' then
                      (char_of (16 * digit_index (hd z) + digit_index (hd (tl z))), tl (tl z))
                    else (k, z)))"

fun ctor :: "pyval \<Rightarrow> nat" where
  "ctor PNone = 1"
| "ctor (PBool b) = 2"
| "ctor (PInt i) = 3"
| "ctor (PStr s) = 4"
| "ctor (PList vs) = 5"
| "ctor (PDict kvs) = 6"
| "ctor (PObj a) = 7"

definition ctor_of_char :: "char \<Rightarrow> nat" where
  "ctor_of_char c =
     (if c = CHR ''N'' then 1
      else if c = CHR ''T'' \<or> c = CHR ''F'' then 2
      else if c = CHR ''-'' \<or> c \<in> set digit_chars then 3
      else if is_quote c then 4
      else if c = CHR ''['' then 5
      else if c = CHR ''{'' then 6
      else if c = CHR ''<'' then 7
      else 0)"

section \<open>Endpoint resolution\<close>

lemma dict_of_foldl:
  "foldl (\<lambda>d (k, v). d(k \<mapsto> v)) m kvs = m ++ map_of (rev kvs)"
proof (induction kvs arbitrary: m)
  case Nil
  show ?case by simp
next
  case (Cons kv kvs)
  obtain k v where kv: "kv = (k, v)" by (cases kv)
  have "foldl (\<lambda>d (k, v). d(k \<mapsto> v)) m (kv # kvs) = m(k \<mapsto> v) ++ map_of (rev kvs)"
    unfolding kv by (simp only: foldl_Cons prod.case Cons.IH)
  also have "\<dots> = m ++ map_of (rev (kv # kvs))"
    by (simp add: kv map_add_def fun_eq_iff split: option.splits)
  finally show ?case .
qed

lemma dict_of_map_of: "dict_of kvs = map_of (rev kvs)"
  by (simp add: dict_of_def dict_of_foldl)

lemma set_str_items: "f \<in> set (str_items its) \<longleftrightarrow> IStr f \<in> set its"
  by (induction its rule: str_items.induct) auto

lemma map_of_items:
  "map_of (rev (map (\<lambda>i. (i, e)) xs)) f = (if f \<in> set xs then Some e else None)"
  by (induction xs) (auto simp: map_add_def)

lemma endpoint_lookup_first:
  "endpoint_lookup_of tbl f = (case declaring tbl f of [] \<Rightarrow> None | e # _ \<Rightarrow> Some e)"
proof (induction tbl)
  case Nil
  show ?case
    by (simp add: endpoint_lookup_of_def comprehension_pairs_def dict_of_map_of declaring_def)
next
  case (Cons p tbl)
  obtain e its where p: "p = (e, its)" by (cases p)
  have step: "endpoint_lookup_of (p # tbl) f =
      (if IStr f \<in> set its then Some e else endpoint_lookup_of tbl f)"
    by (simp add: endpoint_lookup_of_def comprehension_pairs_def dict_of_map_of p
        rev_concat rev_map map_add_def map_of_items [unfolded rev_map] set_str_items
        split: option.splits)
  show ?case
    unfolding step Cons.IH by (simp add: declaring_def p)
qed

text \<open>
  C4, as amended. A field resolves to the endpoint that declares it FIRST in the
  declaration order of the table (and to nothing when no endpoint declares it): the
  comprehension walks the table backwards, so the first endpoint is stored last and
  stays. This is what the comment above \<open>ENDPOINT_LOOKUP\<close> in \<open>const.py\<close> announces.
\<close>

theorem endpoint_lookup_first_declared:
  "endpoint_lookup_of tbl f = (case declaring tbl f of [] \<Rightarrow> None | e # _ \<Rightarrow> Some e)
   \<and> ENDPOINT_LOOKUP f = (case declaring ITEM_LOOKUP f of [] \<Rightarrow> None | e # _ \<Rightarrow> Some e)"
  by (simp add: ENDPOINT_LOOKUP_def endpoint_lookup_first)

text \<open>
  C4, the claim as stated, fails on the table of \<open>const.py\<close>: \<open>distanceUnit\<close> is
  declared under three endpoints, the usage records last, and resolves to the battery
  information endpoint, which is declared first.
\<close>

theorem endpoint_lookup_last_declared_counterexample:
  "declaring ITEM_LOOKUP ''distanceUnit'' =
     [ENDPOINT_BATTERY_INFO, ENDPOINT_DAILY_USAGE, ENDPOINT_VA_USAGE_RECORDS]
   \<and> ENDPOINT_LOOKUP ''distanceUnit'' = Some ENDPOINT_BATTERY_INFO
   \<and> ENDPOINT_LOOKUP ''distanceUnit'' \<noteq> Some (last (declaring ITEM_LOOKUP ''distanceUnit''))"
proof -
  have d: "declaring ITEM_LOOKUP ''distanceUnit'' =
      [ENDPOINT_BATTERY_INFO, ENDPOINT_DAILY_USAGE, ENDPOINT_VA_USAGE_RECORDS]"
    by (simp add: declaring_def ITEM_LOOKUP_def BATTERY_ITEMS_def USAGE_ITEMS_def
        CHARGE_ITEMS_def STATUS_ITEMS_def RECORDS_ITEMS_def PRODUCTS_ITEMS_def)
  have l: "ENDPOINT_LOOKUP ''distanceUnit'' = Some ENDPOINT_BATTERY_INFO"
    by (simp add: ENDPOINT_LOOKUP_def endpoint_lookup_first d)
  have n: "ENDPOINT_BATTERY_INFO \<noteq> ENDPOINT_VA_USAGE_RECORDS"
    by (simp add: ENDPOINT_BATTERY_INFO_def ENDPOINT_VA_USAGE_RECORDS_def)
  show ?thesis
    using n by (simp add: d l)
qed

section \<open>Explicit endpoints in \<open>request_item\<close>\<close>

lemma ENDPOINT_LOOKUP_declared:
  "ENDPOINT_LOOKUP f = None \<longleftrightarrow> declaring ITEM_LOOKUP f = []"
  by (simp add: ENDPOINT_LOOKUP_def endpoint_lookup_first split: list.splits)

text \<open>
  C5. The code at the failing input: \<open>stateOfCharge\<close> is declared under the battery
  information endpoint, and naming that endpoint raises "Invalid endpoint", because the
  endpoint is looked up among the keys of \<open>ENDPOINT_LOOKUP\<close>, which are field names.
  An endpoint argument that is a field name passes that test and then raises
  \<open>KeyError\<close> at \<open>ITEM_LOOKUP[endpoint]\<close>, not a usage error.
\<close>

theorem request_item_explicit_endpoint_rejected:
  "map_of ITEM_LOOKUP ENDPOINT_BATTERY_INFO = Some BATTERY_ITEMS
   \<and> IStr ''stateOfCharge'' \<in> set BATTERY_ITEMS
   \<and> request_item_endpoint ''stateOfCharge'' (Some ENDPOINT_BATTERY_INFO) =
       Inl (MyPermobilClientException (''Invalid endpoint '' @ ENDPOINT_BATTERY_INFO))
   \<and> request_item_endpoint ''status'' (Some ''status'') = Inl (KeyError ''status'')"
proof -
  have a: "map_of ITEM_LOOKUP ENDPOINT_BATTERY_INFO = Some BATTERY_ITEMS"
    by (simp add: ITEM_LOOKUP_def)
  have b: "IStr ''stateOfCharge'' \<in> set BATTERY_ITEMS"
    by (simp add: BATTERY_ITEMS_def)
  have "declaring ITEM_LOOKUP ENDPOINT_BATTERY_INFO = []"
    by (simp add: declaring_def ITEM_LOOKUP_def BATTERY_ITEMS_def USAGE_ITEMS_def
        CHARGE_ITEMS_def STATUS_ITEMS_def RECORDS_ITEMS_def PRODUCTS_ITEMS_def
        ENDPOINT_BATTERY_INFO_def)
  then have c: "ENDPOINT_LOOKUP ENDPOINT_BATTERY_INFO = None"
    by (simp add: ENDPOINT_LOOKUP_declared)
  have "declaring ITEM_LOOKUP ''status'' = [ENDPOINT_VA_CHAIR_STATUS]"
    by (simp add: declaring_def ITEM_LOOKUP_def BATTERY_ITEMS_def USAGE_ITEMS_def
        CHARGE_ITEMS_def STATUS_ITEMS_def RECORDS_ITEMS_def PRODUCTS_ITEMS_def)
  then have d: "ENDPOINT_LOOKUP ''status'' = Some ENDPOINT_VA_CHAIR_STATUS"
    by (simp add: ENDPOINT_LOOKUP_def endpoint_lookup_first)
  have e: "map_of ITEM_LOOKUP ''status'' = None"
    by (simp add: ITEM_LOOKUP_def ENDPOINT_BATTERY_INFO_def ENDPOINT_DAILY_USAGE_def
        ENDPOINT_VA_CHARGE_TIME_def ENDPOINT_VA_CHAIR_STATUS_def
        ENDPOINT_VA_USAGE_RECORDS_def ENDPOINT_PRODUCTS_def)
  show ?thesis
    by (simp add: a b c d e request_item_endpoint_def)
qed

section \<open>The session: setters, authentication, deauthentication\<close>

lemma validate_email_usage: "validate_email v = Inl e \<Longrightarrow> is_usage_error (Inl e :: error + 'a)"
  by (auto simp: validate_email_def split: option.splits if_splits)

lemma validate_region_usage: "validate_region v = Inl e \<Longrightarrow> is_usage_error (Inl e :: error + 'a)"
  by (auto simp: validate_region_def split: option.splits if_splits)

lemma validate_code_usage:
  "validate_code v = Inl e \<Longrightarrow> is_str_or_none v \<Longrightarrow> is_usage_error (Inl e :: error + 'a)"
  by (cases v) (auto simp: validate_code_def split: if_splits)

lemma validate_token_usage: "validate_token v = Inl e \<Longrightarrow> is_usage_error (Inl e :: error + 'a)"
  by (auto simp: validate_token_def split: option.splits if_splits)

lemma validate_expiration_date_usage:
  "validate_expiration_date lib v = Inl e \<Longrightarrow> is_usage_error (Inl e :: error + 'a)"
  by (auto simp: validate_expiration_date_def split: option.splits if_splits)

lemma set_email_fails:
  "authenticated self \<or> isl (validate_email v) \<Longrightarrow>
   is_usage_error (fst (set_email v self)) \<and> snd (set_email v self) = self"
  by (auto simp: set_email_def isl_def dest: validate_email_usage)

lemma set_region_fails:
  "authenticated self \<or> isl (validate_region v) \<Longrightarrow>
   is_usage_error (fst (set_region v self)) \<and> snd (set_region v self) = self"
  by (auto simp: set_region_def isl_def dest: validate_region_usage)

lemma set_code_fails:
  "authenticated self \<or> isl (validate_code c) \<Longrightarrow>
   isl (fst (set_code c self)) \<and> snd (set_code c self) = self
   \<and> (authenticated self \<or> is_str_or_none c \<longrightarrow> is_usage_error (fst (set_code c self)))"
  by (auto simp: set_code_def isl_def dest: validate_code_usage)

text \<open>
  On an int, its declared type, \<open>set_code\<close> raises no usage error: zero is a missing
  code, any other int has no \<open>isdigit\<close>.
\<close>

lemma set_code_int:
  "\<not> authenticated self \<Longrightarrow> i \<noteq> 0 \<Longrightarrow>
   set_code (PInt i) self = (Inl (AttributeError ''isdigit''), self)"
  by (simp add: set_code_def validate_code_def)

lemma set_token_fails:
  "authenticated self \<or> isl (validate_token v) \<Longrightarrow>
   is_usage_error (fst (set_token v self)) \<and> snd (set_token v self) = self"
  by (auto simp: set_token_def isl_def dest: validate_token_usage)

lemma set_expiration_date_fails:
  "authenticated self \<or> isl (validate_expiration_date lib v) \<Longrightarrow>
   is_usage_error (fst (set_expiration_date lib v self))
   \<and> snd (set_expiration_date lib v self) = self"
  by (auto simp: set_expiration_date_def isl_def dest: validate_expiration_date_usage)

lemma set_application_fails:
  "authenticated self \<Longrightarrow>
   is_usage_error (fst (set_application v self)) \<and> snd (set_application v self) = self"
  by (simp add: set_application_def)

lemma setters_assign:
  "\<not> authenticated self \<Longrightarrow> validate_email v = Inr x \<Longrightarrow>
     set_email v self = (Inr (), self\<lparr>email := Some x\<rparr>)"
  "\<not> authenticated self \<Longrightarrow> validate_region v = Inr x \<Longrightarrow>
     set_region v self = (Inr (), self\<lparr>region := Some x\<rparr>)"
  "\<not> authenticated self \<Longrightarrow> validate_code c = Inr x \<Longrightarrow>
     set_code c self = (Inr (), self\<lparr>code := Some x\<rparr>)"
  "\<not> authenticated self \<Longrightarrow> validate_token v = Inr x \<Longrightarrow>
     set_token v self = (Inr (), self\<lparr>token := Some x\<rparr>)"
  "\<not> authenticated self \<Longrightarrow> validate_expiration_date lib v = Inr x \<Longrightarrow>
     set_expiration_date lib v self = (Inr (), self\<lparr>expiration_date := Some x\<rparr>)"
  "\<not> authenticated self \<Longrightarrow> set_application v self = (Inr (), self\<lparr>application := v\<rparr>)"
  by (simp_all add: set_email_def set_region_def set_code_def set_token_def
      set_expiration_date_def set_application_def)

lemma self_authenticate_succeeds_iff:
  "fst (self_authenticate lib self) = Inr () \<longleftrightarrow>
   \<not> authenticated self \<and> \<not> falsy (application self) \<and> all_valid lib self"
  by (auto simp: self_authenticate_def all_valid_def isl_def split: sum.splits)

lemma self_authenticate_success:
  "fst (self_authenticate lib self) = Inr () \<Longrightarrow>
   snd (self_authenticate lib self) = self\<lparr>authenticated := True\<rparr>"
  by (auto simp: self_authenticate_def split: sum.splits if_splits)

lemma self_authenticate_failure:
  "fst (self_authenticate lib self) \<noteq> Inr () \<Longrightarrow>
   is_usage_error (fst (self_authenticate lib self)) \<and> snd (self_authenticate lib self) = self"
  by (auto simp: self_authenticate_def split: sum.splits if_splits
      dest: validate_region_usage validate_email_usage validate_token_usage
        validate_expiration_date_usage)

text \<open>
  C7, as amended. Given a string or \<open>None\<close>, every setter refuses with a
  \<open>MyPermobilClientException\<close>, leaving the object as it was, when the object is
  authenticated or its validator rejects the value, and assigns the validated value
  otherwise; the application setter has no validator and refuses only an authenticated
  object. The code setter, declared to take an int, is stated for a string or \<open>None\<close>;
  whatever its argument, a refusal leaves the object as it was. \<open>self_authenticate\<close>
  succeeds exactly when the object is not yet authenticated, its application name is not
  empty, and region, email, token and expiration date are all valid; it then sets the
  flag and nothing else, and in every other case it raises a
  \<open>MyPermobilClientException\<close> and changes nothing.
\<close>

theorem setters_and_authenticate:
  "(authenticated self \<or> isl (validate_email v) \<longrightarrow>
      is_usage_error (fst (set_email v self)) \<and> snd (set_email v self) = self)
   \<and> (authenticated self \<or> isl (validate_region v) \<longrightarrow>
      is_usage_error (fst (set_region v self)) \<and> snd (set_region v self) = self)
   \<and> (authenticated self \<or> isl (validate_code c) \<longrightarrow>
      isl (fst (set_code c self)) \<and> snd (set_code c self) = self
      \<and> (authenticated self \<or> is_str_or_none c \<longrightarrow> is_usage_error (fst (set_code c self))))
   \<and> (authenticated self \<or> isl (validate_token v) \<longrightarrow>
      is_usage_error (fst (set_token v self)) \<and> snd (set_token v self) = self)
   \<and> (authenticated self \<or> isl (validate_expiration_date lib v) \<longrightarrow>
      is_usage_error (fst (set_expiration_date lib v self))
      \<and> snd (set_expiration_date lib v self) = self)
   \<and> (authenticated self \<longrightarrow>
      is_usage_error (fst (set_application v self)) \<and> snd (set_application v self) = self)
   \<and> (\<not> authenticated self \<longrightarrow>
      (validate_email v = Inr x \<longrightarrow> set_email v self = (Inr (), self\<lparr>email := Some x\<rparr>))
      \<and> (validate_region v = Inr x \<longrightarrow> set_region v self = (Inr (), self\<lparr>region := Some x\<rparr>))
      \<and> (validate_code c = Inr x \<longrightarrow> set_code c self = (Inr (), self\<lparr>code := Some x\<rparr>))
      \<and> (validate_token v = Inr x \<longrightarrow> set_token v self = (Inr (), self\<lparr>token := Some x\<rparr>))
      \<and> (validate_expiration_date lib v = Inr x \<longrightarrow>
           set_expiration_date lib v self = (Inr (), self\<lparr>expiration_date := Some x\<rparr>))
      \<and> set_application v self = (Inr (), self\<lparr>application := v\<rparr>))
   \<and> (fst (self_authenticate lib self) = Inr () \<longleftrightarrow>
        \<not> authenticated self \<and> \<not> falsy (application self) \<and> all_valid lib self)
   \<and> (fst (self_authenticate lib self) = Inr () \<longrightarrow>
        snd (self_authenticate lib self) = self\<lparr>authenticated := True\<rparr>)
   \<and> (fst (self_authenticate lib self) \<noteq> Inr () \<longrightarrow>
        is_usage_error (fst (self_authenticate lib self))
        \<and> snd (self_authenticate lib self) = self)"
  using set_email_fails [of self v] set_region_fails [of self v] set_code_fails [of self c]
    set_token_fails [of self v] set_expiration_date_fails [of self lib v]
    set_application_fails [of self v] setters_assign(1,2,4) [of self v x]
    setters_assign(3) [of self c x] setters_assign(5) [of self lib v x]
    setters_assign(6) [of self v]
    self_authenticate_succeeds_iff [of lib self] self_authenticate_success [of lib self]
    self_authenticate_failure [of lib self]
  by blast

lemma client0_valid:
  "\<not> authenticated client0 \<and> \<not> falsy (application client0) \<and> all_valid lib0 client0"
  by (simp add: all_valid_def client0_def init_def lib0_def falsy_def validate_region_def
      startswith_def validate_email_def EMAIL_REGEX_def Plus_def validate_token_def
      validate_expiration_date_def)

theorem setters_and_authenticate_witness:
  "\<not> authenticated client0 \<and> \<not> falsy (application client0) \<and> all_valid lib0 client0
   \<and> self_authenticate lib0 client0 = (Inr (), client0\<lparr>authenticated := True\<rparr>)
   \<and> validate_email (Some ''x@y.z'') = Inr ''x@y.z''
   \<and> set_email (Some ''x@y.z'') client0 = (Inr (), client0\<lparr>email := Some ''x@y.z''\<rparr>)
   \<and> isl (validate_email (Some ''nobody''))
   \<and> is_usage_error (fst (set_email (Some ''nobody'') client0))
   \<and> snd (set_email (Some ''nobody'') client0) = client0
   \<and> validate_code (PStr ''654321'') = Inr ''654321''
   \<and> set_code (PStr ''654321'') client0 = (Inr (), client0\<lparr>code := Some ''654321''\<rparr>)
   \<and> isl (validate_code (PStr ''12a456'')) \<and> is_str_or_none (PStr ''12a456'')
   \<and> is_usage_error (fst (set_code (PStr ''12a456'') client0))
   \<and> snd (set_code (PStr ''12a456'') client0) = client0
   \<and> authenticated (client0\<lparr>authenticated := True\<rparr>)
   \<and> is_usage_error (fst (set_token (Some ''x'') (client0\<lparr>authenticated := True\<rparr>)))
   \<and> snd (set_token (Some ''x'') (client0\<lparr>authenticated := True\<rparr>)) =
       client0\<lparr>authenticated := True\<rparr>
   \<and> is_usage_error (fst (self_authenticate lib0 (client0\<lparr>authenticated := True\<rparr>)))"
proof -
  have e1: "validate_email (Some ''x@y.z'') = Inr ''x@y.z''"
    by (simp add: validate_email_def EMAIL_REGEX_def Plus_def)
  have e2: "isl (validate_email (Some ''nobody''))"
    by (simp add: validate_email_def EMAIL_REGEX_def Plus_def)
  have c1: "validate_code (PStr ''654321'') = Inr ''654321''"
    by (simp add: validate_code_def isdigit_def isdigit_char_def)
  have c2: "isl (validate_code (PStr ''12a456''))" "is_str_or_none (PStr ''12a456'')"
    by (simp_all add: validate_code_def isdigit_def isdigit_char_def)
  have a: "authenticated (client0\<lparr>authenticated := True\<rparr>)"
    by simp
  show ?thesis
    using client0_valid e1 e2 c1 c2 a
      setters_and_authenticate [where self = client0 and v = "Some ''x@y.z''" and lib = lib0
        and x = "''x@y.z''" and c = "PStr ''12a456''"]
      setters_and_authenticate [where self = client0 and v = "Some ''nobody''" and lib = lib0
        and x = "''654321''" and c = "PStr ''654321''"]
      setters_and_authenticate [where self = "client0\<lparr>authenticated := True\<rparr>"
        and v = "Some ''x''" and lib = lib0 and x = "''x''" and c = PNone]
    by (simp add: prod_eq_iff)
qed

text \<open>
  C7, the claim as stated, fails: with region, email, token and expiration date all valid
  but an empty application name, \<open>self_authenticate\<close> raises and the flag stays false.
\<close>

theorem authenticate_all_valid_counterexample:
  "all_valid lib0 (client0\<lparr>application := Some []\<rparr>)
   \<and> fst (self_authenticate lib0 (client0\<lparr>application := Some []\<rparr>)) =
       Inl (MyPermobilClientException ''Missing application name'')
   \<and> \<not> authenticated (snd (self_authenticate lib0 (client0\<lparr>application := Some []\<rparr>)))"
proof -
  have v: "all_valid lib0 (client0\<lparr>application := Some []\<rparr>)"
    using client0_valid by (simp add: all_valid_def)
  have n: "\<not> authenticated (client0\<lparr>application := Some []\<rparr>)"
    by (simp add: client0_def init_def)
  show ?thesis
    using v n by (simp add: self_authenticate_def falsy_def)
qed

text \<open>
  C8, as amended. \<open>deauthenticate\<close> raises a \<open>MyPermobilClientException\<close> on an object
  that is not authenticated and returns normally on one that is; in both cases it leaves
  every attribute as it was, the \<open>authenticated\<close> flag included.
\<close>

theorem deauthenticate_changes_nothing:
  "(\<not> authenticated self \<longrightarrow>
      fst (deauthenticate self) = Inl (MyPermobilClientException ''Not authenticated''))
   \<and> (authenticated self \<longrightarrow> fst (deauthenticate self) = Inr ())
   \<and> snd (deauthenticate self) = self"
  by (simp add: deauthenticate_def)

theorem deauthenticate_changes_nothing_witness:
  "\<not> authenticated client0
   \<and> fst (deauthenticate client0) = Inl (MyPermobilClientException ''Not authenticated'')
   \<and> authenticated (snd (self_authenticate lib0 client0))
   \<and> fst (deauthenticate (snd (self_authenticate lib0 client0))) = Inr ()
   \<and> snd (deauthenticate (snd (self_authenticate lib0 client0))) =
       snd (self_authenticate lib0 client0)"
proof -
  have a: "snd (self_authenticate lib0 client0) = client0\<lparr>authenticated := True\<rparr>"
    using client0_valid self_authenticate_succeeds_iff [of lib0 client0]
      self_authenticate_success [of lib0 client0] by simp
  show ?thesis
    using client0_valid deauthenticate_changes_nothing [of client0]
      deauthenticate_changes_nothing [of "client0\<lparr>authenticated := True\<rparr>"]
    by (simp add: a)
qed

text \<open>
  C8, the claim as stated, fails: after \<open>self_authenticate\<close> and then
  \<open>deauthenticate\<close>, which returns normally, the object is still authenticated.
\<close>

theorem deauthenticate_keeps_flag_counterexample:
  "authenticated (snd (self_authenticate lib0 client0))
   \<and> fst (deauthenticate (snd (self_authenticate lib0 client0))) = Inr ()
   \<and> authenticated (snd (deauthenticate (snd (self_authenticate lib0 client0))))"
proof -
  have a: "snd (self_authenticate lib0 client0) = client0\<lparr>authenticated := True\<rparr>"
    using client0_valid self_authenticate_succeeds_iff [of lib0 client0]
      self_authenticate_success [of lib0 client0] by simp
  show ?thesis
    by (simp add: a deauthenticate_def)
qed

section \<open>The expiration date of a requested token\<close>

text \<open>
  C10, as amended. When the call passes the checks and the server answers 200 with a
  JSON object, the token is the \<open>token\<close> entry of the answer (\<open>None\<close> without one).
  Without an \<open>expiration_date\<close> argument the date returned is the clock's time plus 365
  days, printed with \<open>%Y-%m-%d\<close>, whatever expiration date the object holds; with the
  argument, the date returned is the argument, unchanged.
\<close>

theorem request_application_token_expiration:
  assumes "\<not> authenticated self"
    and "validate_email (or_else email_arg (email self)) = Inr e"
    and "validate_region (or_else region_arg (region self)) = Inr r"
    and "validate_code (code_or_else code_arg (code self)) = Inr c"
    and "\<And>url body hdrs timeout. post url body hdrs timeout = Response resp"
    and "status resp = 200" and "json resp = PDict kvs"
  shows "request_application_token lib post self email_arg code_arg region_arg
           application_arg expiration_arg =
         Inr (case map_of kvs ''token'' of None \<Rightarrow> PNone | Some tok \<Rightarrow> tok,
              case expiration_arg of
                None \<Rightarrow> strftime lib (now lib + timedelta_days 365)
              | Some d \<Rightarrow> d)"
  using assms
  by (simp add: request_application_token_def post_request_def Let_def split: option.splits)

theorem request_application_token_expiration_witness:
  "\<not> authenticated client0
   \<and> validate_email (or_else None (email client0)) = Inr ''a@b.c''
   \<and> validate_region (or_else None (region client0)) = Inr ''https://x''
   \<and> validate_code (code_or_else PNone (code client0)) = Inr ''123456''
   \<and> request_application_token lib0 post0 client0 None PNone None None None =
       Inr (PStr ''T'', strftime lib0 (now lib0 + timedelta_days 365))
   \<and> request_application_token lib0 post0 client0 None PNone None None (Some ''2031-01-01'') =
       Inr (PStr ''T'', ''2031-01-01'')"
proof -
  have a: "\<not> authenticated client0"
    by (simp add: client0_def init_def)
  have e: "validate_email (or_else None (email client0)) = Inr ''a@b.c''"
    by (simp add: client0_def init_def or_else_def validate_email_def EMAIL_REGEX_def Plus_def)
  have r: "validate_region (or_else None (region client0)) = Inr ''https://x''"
    by (simp add: client0_def init_def or_else_def validate_region_def startswith_def)
  have c: "validate_code (code_or_else PNone (code client0)) = Inr ''123456''"
    by (simp add: client0_def init_def code_or_else_def py_opt_def validate_code_def
        isdigit_def isdigit_char_def)
  have p: "\<And>url body hdrs timeout. post0 url body hdrs timeout =
      Response \<lparr>status = 200, json = PDict [(''token'', PStr ''T'')], body_text = []\<rparr>"
    by (simp add: post0_def)
  show ?thesis
    using a e r c
      request_application_token_expiration [where lib = lib0 and application_arg = None
        and expiration_arg = None and kvs = "[(''token'', PStr ''T'')]", OF a e r c p]
      request_application_token_expiration [where lib = lib0 and application_arg = None
        and expiration_arg = "Some ''2031-01-01''" and kvs = "[(''token'', PStr ''T'')]",
        OF a e r c p]
    by simp
qed

text \<open>
  C10, the claim as stated, fails: an expiration date supplied on the object and not as
  an argument is not returned; the date returned is the one computed from the clock.
\<close>

theorem request_application_token_session_date_counterexample:
  "expiration_date client0 = Some ''2999-12-31''
   \<and> request_application_token lib0 post0 client0 None PNone None None None =
       Inr (PStr ''T'', ''2027-11-03'')"
  by (simp add: request_application_token_def post_request_def client0_def init_def lib0_def
      post0_def or_else_def code_or_else_def py_opt_def validate_email_def EMAIL_REGEX_def
      Plus_def validate_region_def startswith_def validate_code_def isdigit_def
      isdigit_char_def)


section \<open>The single-flight wrapper\<close>

lemma leaders_ok_gate:
  "leaders_ok (cs, w) \<Longrightarrow> cs i = AwaitFetch key \<Longrightarrow>
   \<exists>ev. CACHE_LOCKS w key = Some ev \<and> ev < length (events w)"
  by (simp add: leaders_ok_def; blast)

lemma wrapper_start_cases:
  assumes "wrapper_start key t w = (c, w')"
  shows "(c = AwaitFetch key \<and> CACHE_LOCKS w key = None
          \<and> w' = w\<lparr>CACHE_LOCKS := (CACHE_LOCKS w)(key \<mapsto> length (events w)),
                    events := events w @ [False],
                    trace := trace w @ [GateNew key (length (events w)), Fetch key]\<rparr>)
         \<or> (w' = w \<and> (\<forall>k. c \<noteq> AwaitFetch k))"
  using assms by (auto simp: wrapper_start_def split: sum.splits if_splits option.splits)

lemma store_result_simps:
  "CACHE (store_result key r t w) = CACHE_set key (to_cached r) (ttl_of r) t (CACHE w)"
  "CACHE_LOCKS (store_result key r t w) = CACHE_LOCKS w"
  "events (store_result key r t w) = events w"
  "trace (store_result key r t w) = trace w @ [Stored key (to_cached r) (ttl_of r)]"
  by (simp_all add: store_result_def)

lemma release_gate_simps:
  "CACHE (release_gate key ev w) = CACHE w"
  "CACHE_LOCKS (release_gate key ev w) = (CACHE_LOCKS w)(key := None)"
  "events (release_gate key ev w) = (events w)[ev := True]"
  "trace (release_gate key ev w) = trace w @ [GateSet ev, GateDel key]"
  by (simp_all add: release_gate_def)

lemma wrapper_finish_leader:
  assumes "CACHE_LOCKS w key = Some ev"
  shows "wrapper_finish key r t w =
    (Done r, release_gate key ev (if is_stored r then store_result key r t w else w))"
  using assms by (simp add: wrapper_finish_def Let_def store_result_simps)

lemma step_leaders_ok:
  assumes "leaders_ok s" and "step e s = Some s'"
  shows "leaders_ok s'"
proof -
  obtain cs w where s: "s = (cs, w)" by (cases s)
  show ?thesis
  proof (cases e)
    case (Invoke i key t)
    obtain c w' where st: "wrapper_start key t w = (c, w')" by (cases "wrapper_start key t w")
    from assms(2) have r: "cs i = Ready" and s': "s' = (cs(i := c), w')"
      by (auto simp: s Invoke st split: caller.splits)
    from wrapper_start_cases [OF st] show ?thesis
    proof
      assume a: "c = AwaitFetch key \<and> CACHE_LOCKS w key = None
          \<and> w' = w\<lparr>CACHE_LOCKS := (CACHE_LOCKS w)(key \<mapsto> length (events w)),
                    events := events w @ [False],
                    trace := trace w @ [GateNew key (length (events w)), Fetch key]\<rparr>"
      then have none: "\<And>j. cs j \<noteq> AwaitFetch key"
        using leaders_ok_gate [of cs w _ key] assms(1) by (fastforce simp: s)
      show ?thesis
        using assms(1) a none r unfolding leaders_ok_def s s'
        by (auto simp: less_Suc_eq)
    next
      assume a: "w' = w \<and> (\<forall>k. c \<noteq> AwaitFetch k)"
      show ?thesis
        using assms(1) a r unfolding leaders_ok_def s s'
        by auto
    qed
  next
    case (Complete i r t)
    from assms(2) obtain key where l: "cs i = AwaitFetch key"
      by (auto simp: s Complete split: caller.splits)
    with assms(1) obtain ev where ev: "CACHE_LOCKS w key = Some ev"
      using leaders_ok_gate [of cs w i key] by (auto simp: s)
    from assms(2) have s': "s' = (cs(i := Done r),
        release_gate key ev (if is_stored r then store_result key r t w else w))"
      by (simp add: s Complete l wrapper_finish_leader [OF ev])
    show ?thesis
      using assms(1) l unfolding leaders_ok_def s s'
      by (auto simp: release_gate_simps store_result_simps split: if_splits)
  next
    case (Resume i t)
    from assms(2) obtain c where s': "s' = (cs(i := Done c), w)" and "\<exists>k ev. cs i = AwaitGate k ev"
      by (auto simp: s Resume wrapper_resume_def split: caller.splits if_splits)
    then show ?thesis
      using assms(1) unfolding leaders_ok_def s s'
      by auto
  qed
qed

lemma run_leaders_ok:
  "leaders_ok s \<Longrightarrow> run es s = Some s' \<Longrightarrow> leaders_ok s'"
  by (induction es arbitrary: s) (auto split: option.splits dest: step_leaders_ok)

lemma initial_leaders_ok: "CACHE_LOCKS w = Map.empty \<Longrightarrow> leaders_ok (\<lambda>i. Ready, w)"
  by (simp add: leaders_ok_def)

lemma leader_has_gate:
  assumes "CACHE_LOCKS w0 = Map.empty" and "run es (\<lambda>i. Ready, w0) = Some (cs, w)"
    and "cs i = AwaitFetch key"
  shows "\<exists>ev. CACHE_LOCKS w key = Some ev \<and> ev < length (events w)"
  using run_leaders_ok [OF initial_leaders_ok [OF assms(1)] assms(2)] assms(3)
  by (rule leaders_ok_gate)

lemma async_get_cache_stored:
  "c key = Some (to_cached r, x) \<Longrightarrow> t < x \<Longrightarrow> async_get_cache c t key = r"
  by (simp add: async_get_cache_def CACHE_get_def to_cached_def split: sum.splits)

lemma async_get_cache_absent:
  "c key = None \<Longrightarrow> async_get_cache c t key = Inr PNone"
  by (simp add: async_get_cache_def CACHE_get_def)

lemma idle_invoke:
  assumes "idle a b key n s" and "step (Invoke i key t) s = Some s'" and "i = a \<or> i = b"
    and "a \<noteq> b"
  shows "inflight a b key n s'"
proof -
  obtain cs w where s: "s = (cs, w)" by (cases s)
  from assms(1) have i: "cs a = Ready" "cs b = Ready" "CACHE w key = None"
      "CACHE_LOCKS w key = None" "fetches key w = n"
    by (simp_all add: idle_def s)
  have st: "wrapper_start key t w = (AwaitFetch key,
      w\<lparr>CACHE_LOCKS := (CACHE_LOCKS w)(key \<mapsto> length (events w)),
        events := events w @ [False],
        trace := trace w @ [GateNew key (length (events w)), Fetch key]\<rparr>)"
    by (simp add: wrapper_start_def async_get_cache_absent i)
  from assms(2,3) i have s': "s' = (cs(i := AwaitFetch key),
      w\<lparr>CACHE_LOCKS := (CACHE_LOCKS w)(key \<mapsto> length (events w)),
        events := events w @ [False],
        trace := trace w @ [GateNew key (length (events w)), Fetch key]\<rparr>)"
    by (auto simp: s st)
  show ?thesis
    using assms(3,4) i unfolding inflight_def s'
    by (auto simp: fetches_def)
qed

lemma inflight_invoke:
  assumes "inflight a b key n s" and "step (Invoke i key t) s = Some s'" and "i = a \<or> i = b"
    and "a \<noteq> b"
  shows "inflight a b key n s'"
proof -
  obtain cs w where s: "s = (cs, w)" by (cases s)
  from assms(1) obtain l f ev where lf: "l = a \<and> f = b \<or> l = b \<and> f = a"
    and l: "cs l = AwaitFetch key" and f: "cs f = Ready \<or> cs f = AwaitGate key ev"
    and w: "CACHE w key = None" "CACHE_LOCKS w key = Some ev" "ev < length (events w)"
      "\<not> events w ! ev" "fetches key w = Suc n"
    unfolding inflight_def s by auto
  from assms(2) have r: "cs i = Ready"
    by (auto simp: s split: caller.splits)
  with l f lf assms(3) have i: "i = f" "cs f = Ready" "l \<noteq> f"
    using assms(4) by auto
  have st: "wrapper_start key t w = (AwaitGate key ev, w)"
    by (simp add: wrapper_start_def async_get_cache_absent w)
  from assms(2) r have s': "s' = (cs(f := AwaitGate key ev), w)"
    by (simp add: s st i)
  show ?thesis
    unfolding inflight_def s' using lf l w i by auto
qed

lemma inflight_complete:
  assumes "inflight a b key n s" and "step (Complete i r t) s = Some s'" and "i = a \<or> i = b"
    and "a \<noteq> b"
  shows "landed a b key n r (t + ttl_of r) s'"
proof -
  obtain cs w where s: "s = (cs, w)" by (cases s)
  from assms(1) obtain l f ev where lf: "l = a \<and> f = b \<or> l = b \<and> f = a"
    and l: "cs l = AwaitFetch key" and f: "cs f = Ready \<or> cs f = AwaitGate key ev"
    and w: "CACHE w key = None" "CACHE_LOCKS w key = Some ev" "ev < length (events w)"
      "\<not> events w ! ev" "fetches key w = Suc n"
    unfolding inflight_def s by auto
  from assms(2) obtain k where "cs i = AwaitFetch k"
    by (auto simp: s split: caller.splits)
  with l f lf assms(3) have i: "i = l" "l \<noteq> f"
    using assms(4) by auto
  let ?w = "release_gate key ev (if is_stored r then store_result key r t w else w)"
  from assms(2) have s': "s' = (cs(l := Done r), ?w)"
    by (simp add: s i l wrapper_finish_leader [OF w(2)])
  have c: "CACHE ?w key = (if is_stored r then Some (to_cached r, t + ttl_of r) else None)"
    using w(1) by (simp add: release_gate_simps store_result_simps CACHE_set_def)
  have n: "fetches key ?w = Suc n"
    using w(5) by (simp add: fetches_def release_gate_simps store_result_simps)
  have e: "ev < length (events ?w)" "events ?w ! ev"
    using w(3) by (simp_all add: release_gate_simps store_result_simps)
  have "(l = a \<and> f = b \<or> l = b \<and> f = a) \<and> (cs(l := Done r)) l = Done r
      \<and> ((cs(l := Done r)) f = Ready
          \<or> (\<exists>ev. (cs(l := Done r)) f = AwaitGate key ev \<and> ev < length (events ?w)
                \<and> events ?w ! ev)
          \<or> (cs(l := Done r)) f = Done (observed r))"
    using lf f i e by auto
  then show ?thesis
    unfolding landed_def s' prod.case using c n
    by (intro exI [of _ l] exI [of _ f]) simp
qed

lemma not_landed_no_resume:
  assumes "idle a b key n s \<or> inflight a b key n s" and "i = a \<or> i = b" and "a \<noteq> b"
  shows "step (Resume i t) s = None"
proof -
  obtain cs w where s: "s = (cs, w)" by (cases s)
  from assms show ?thesis
    unfolding idle_def inflight_def s
    by (auto split: caller.splits)
qed

lemma idle_no_complete:
  assumes "idle a b key n s" and "i = a \<or> i = b"
  shows "step (Complete i r t) s = None"
proof -
  obtain cs w where s: "s = (cs, w)" by (cases s)
  from assms show ?thesis
    unfolding idle_def s by (auto split: caller.splits)
qed

lemma landed_no_complete:
  assumes "landed a b key n r x s" and "i = a \<or> i = b"
  shows "step (Complete i r' t) s = None"
proof -
  obtain cs w where s: "s = (cs, w)" by (cases s)
  from assms show ?thesis
    unfolding landed_def s by (auto split: caller.splits)
qed

lemma landed_read:
  assumes "CACHE w key = (if is_stored r then Some (to_cached r, x) else None)"
    and "is_stored r \<longrightarrow> t < x"
  shows "async_get_cache (CACHE w) t key = observed r"
  using assms
  by (auto simp: observed_def async_get_cache_absent intro: async_get_cache_stored)

lemma landed_resume:
  assumes "landed a b key n r x s" and "step (Resume i t) s = Some s'" and "i = a \<or> i = b"
    and "a \<noteq> b" and "is_stored r \<longrightarrow> t < x"
  shows "landed a b key n r x s'"
proof -
  obtain cs w where s: "s = (cs, w)" by (cases s)
  from assms(1) obtain l f where lf: "l = a \<and> f = b \<or> l = b \<and> f = a"
    and l: "cs l = Done r"
    and f: "cs f = Ready
        \<or> (\<exists>ev. cs f = AwaitGate key ev \<and> ev < length (events w) \<and> events w ! ev)
        \<or> cs f = Done (observed r)"
    and w: "CACHE w key = (if is_stored r then Some (to_cached r, x) else None)"
      "fetches key w = Suc n"
    unfolding landed_def s prod.case by blast
  from assms(2) obtain k ev where g: "cs i = AwaitGate k ev"
    by (auto simp: s split: caller.splits)
  with l f lf assms(3) have i: "i = f" "l \<noteq> f" "k = key"
    using assms(4) by auto
  have "async_get_cache (CACHE w) t key = observed r"
    using w(1) assms(5) by (rule landed_read)
  with assms(2) g have s': "s' = (cs(f := Done (observed r)), w)"
    by (auto simp: s i wrapper_resume_def split: if_splits)
  have "(l = a \<and> f = b \<or> l = b \<and> f = a) \<and> (cs(f := Done (observed r))) l = Done r
      \<and> ((cs(f := Done (observed r))) f = Ready
          \<or> (\<exists>ev. (cs(f := Done (observed r))) f = AwaitGate key ev \<and> ev < length (events w)
                \<and> events w ! ev)
          \<or> (cs(f := Done (observed r))) f = Done (observed r))"
    using lf l i by auto
  then show ?thesis
    unfolding landed_def s' prod.case using w
    by (intro exI [of _ l] exI [of _ f]) simp
qed

lemma run_landed:
  assumes "a \<noteq> b"
  shows "landed a b key n r x s \<Longrightarrow> run es s = Some s' \<Longrightarrow> \<not> list_ex is_invoke es \<Longrightarrow>
    list_all (of_callers a b key) es \<Longrightarrow> is_stored r \<longrightarrow> list_all (before x) es \<Longrightarrow>
    landed a b key n r x s'"
proof (induction es arbitrary: s)
  case Nil
  then show ?case by simp
next
  case (Cons e es)
  from Cons.prems(2) obtain s1 where s1: "step e s = Some s1" and r: "run es s1 = Some s'"
    by (auto split: option.splits)
  have "landed a b key n r x s1"
  proof (cases e)
    case (Invoke i k t)
    with Cons.prems(3) show ?thesis by simp
  next
    case (Complete i r' t)
    with Cons.prems(4) have "i = a \<or> i = b" by simp
    from landed_no_complete [OF Cons.prems(1) this] s1 Complete show ?thesis by simp
  next
    case (Resume i t)
    with Cons.prems(4,5) have "i = a \<or> i = b" "is_stored r \<longrightarrow> t < x" by simp_all
    with landed_resume [OF Cons.prems(1) _ _ assms] s1 Resume show ?thesis by simp
  qed
  from Cons.IH [OF this r] Cons.prems(3,4,5) show ?case by simp
qed

lemma run_flight:
  assumes "a \<noteq> b"
  shows "idle a b key n s \<or> inflight a b key n s \<Longrightarrow> run es s = Some s' \<Longrightarrow> concurrent es \<Longrightarrow>
    list_all (of_callers a b key) es \<Longrightarrow> prompt es \<Longrightarrow>
    idle a b key n s' \<or> inflight a b key n s' \<or> (\<exists>r x. landed a b key n r x s')"
proof (induction es arbitrary: s)
  case Nil
  then show ?case by auto
next
  case (Cons e es)
  from Cons.prems(2) obtain s1 where s1: "step e s = Some s1" and r: "run es s1 = Some s'"
    by (auto split: option.splits)
  show ?case
  proof (cases e)
    case (Invoke i k t)
    with Cons.prems(4) have i: "i = a \<or> i = b" and k: "k = key" by simp_all
    have "inflight a b key n s1"
      using Cons.prems(1) idle_invoke [OF _ _ i assms] inflight_invoke [OF _ _ i assms]
        s1 Invoke k by blast
    from Cons.IH [OF _ r] this Cons.prems(3,4,5) Invoke show ?thesis by simp
  next
    case (Complete i r' t)
    with Cons.prems(4) have i: "i = a \<or> i = b" by simp
    have "inflight a b key n s"
      using Cons.prems(1) idle_no_complete [OF _ i] s1 Complete by fastforce
    from inflight_complete [OF this _ i assms] s1 Complete
    have "landed a b key n r' (t + ttl_of r') s1" by simp
    from run_landed [OF assms this r] Cons.prems(3,4,5) Complete show ?thesis by auto
  next
    case (Resume i t)
    with Cons.prems(4) have "i = a \<or> i = b" by simp
    from not_landed_no_resume [OF Cons.prems(1) this assms] s1 Resume show ?thesis by simp
  qed
qed

lemma is_stored_observed: "is_stored (observed r)"
  by (simp add: observed_def is_stored_def)

lemma observed_stored: "is_stored r \<Longrightarrow> observed r = r"
  by (simp add: observed_def)

text \<open>
  C1, as amended. Two callers \<open>a\<close> and \<open>b\<close> call a cacheable operation with the same key
  while the store has no entry for it and no fetch of it is in progress, both before the
  wrapped function finishes. Then, in every state that a schedule reaches: the wrapped
  function has run at most once, and exactly once as soon as one of them has called; a
  caller whose wrapped function is in progress can finish with any outcome, and gets that
  outcome; once the leader is done, the waiting caller is not blocked: it can go on at
  any time, and if the leader's outcome is a value or an \<open>Exception\<close>, the store holds
  it and the waiting caller that goes on before the entry expires gets the same outcome;
  and when both callers are done in a prompt schedule and neither was cancelled, both got
  the same outcome, the same value returned or the same exception raised.
\<close>

theorem single_flight:
  assumes "a \<noteq> b"
    and "CACHE w0 key = None" and "CACHE_LOCKS w0 key = None"
    and "run es (\<lambda>i. Ready, w0) = Some (cs, w)"
    and "concurrent es" and "list_all (of_callers a b key) es" and "prompt es"
  shows "fetches key w \<le> fetches key w0 + 1
     \<and> (cs a \<noteq> Ready \<or> cs b \<noteq> Ready \<longrightarrow> fetches key w = fetches key w0 + 1)
     \<and> (\<forall>l k r t. (l = a \<or> l = b) \<longrightarrow> cs l = AwaitFetch k \<longrightarrow>
          (\<exists>w'. step (Complete l r t) (cs, w) = Some (cs(l := Done r), w')))
     \<and> (\<forall>l f r k ev t. (l = a \<and> f = b \<or> l = b \<and> f = a) \<longrightarrow> cs l = Done r \<longrightarrow>
          cs f = AwaitGate k ev \<longrightarrow>
            step (Resume f t) (cs, w) =
              Some (cs(f := Done (async_get_cache (CACHE w) t key)), w)
            \<and> (is_stored r \<longrightarrow>
                 (\<exists>x. CACHE w key = Some (to_cached r, x)
                    \<and> (t < x \<longrightarrow> async_get_cache (CACHE w) t key = r))))
     \<and> (\<forall>ra rb. cs a = Done ra \<longrightarrow> cs b = Done rb \<longrightarrow> is_stored ra \<longrightarrow> is_stored rb \<longrightarrow>
          ra = rb)"
proof -
  let ?n = "fetches key w0"
  have "idle a b key ?n (\<lambda>i. Ready, w0)"
    using assms(2,3) by (simp add: idle_def)
  then have "idle a b key ?n (cs, w) \<or> inflight a b key ?n (cs, w)
      \<or> (\<exists>r x. landed a b key ?n r x (cs, w))"
    using run_flight [OF assms(1) _ assms(4,5,6,7)] by blast
  then consider (idle) "idle a b key ?n (cs, w)" | (inflight) "inflight a b key ?n (cs, w)"
    | (landed) r x where "landed a b key ?n r x (cs, w)"
    by blast
  then show ?thesis
  proof cases
    case idle
    then show ?thesis
      by (simp add: idle_def)
  next
    case inflight
    then obtain l f ev where lf: "l = a \<and> f = b \<or> l = b \<and> f = a"
      and l: "cs l = AwaitFetch key" and f: "cs f = Ready \<or> cs f = AwaitGate key ev"
      and g: "CACHE_LOCKS w key = Some ev" and n: "fetches key w = Suc ?n"
      unfolding inflight_def by auto
    have fin: "\<exists>w'. step (Complete l' r t) (cs, w) = Some (cs(l' := Done r), w')"
      if "l' = a \<or> l' = b" "cs l' = AwaitFetch k" for l' k r t
    proof -
      from that lf l f have "l' = l" "k = key" by auto
      then show ?thesis
        using l by (simp add: wrapper_finish_leader [OF g])
    qed
    have "\<not> (cs a = Done ra \<and> cs b = Done rb)" for ra rb
      using lf l by auto
    moreover have "\<not> ((l' = a \<and> f' = b \<or> l' = b \<and> f' = a) \<and> cs l' = Done r)" for l' f' r
      using lf l f by auto
    ultimately show ?thesis
      using n fin by (simp; blast)
  next
    case landed
    then obtain l f where lf: "l = a \<and> f = b \<or> l = b \<and> f = a"
      and l: "cs l = Done r"
      and f: "cs f = Ready
          \<or> (\<exists>ev. cs f = AwaitGate key ev \<and> ev < length (events w) \<and> events w ! ev)
          \<or> cs f = Done (observed r)"
      and c: "CACHE w key = (if is_stored r then Some (to_cached r, x) else None)"
      and n: "fetches key w = Suc ?n"
      unfolding landed_def prod.case by blast
    have nofetch: "\<not> ((l' = a \<or> l' = b) \<and> cs l' = AwaitFetch k)" for l' k
      using lf l f by auto
    have eq: "ra = rb" if "cs a = Done ra" "cs b = Done rb" "is_stored ra" "is_stored rb"
      for ra rb
      using that lf l f assms(1) by (auto simp: observed_stored)
    have go: "step (Resume f' t) (cs, w) =
          Some (cs(f' := Done (async_get_cache (CACHE w) t key)), w)
        \<and> (is_stored r' \<longrightarrow>
             (\<exists>x. CACHE w key = Some (to_cached r', x)
                \<and> (t < x \<longrightarrow> async_get_cache (CACHE w) t key = r')))"
      if "l' = a \<and> f' = b \<or> l' = b \<and> f' = a" "cs l' = Done r'" "cs f' = AwaitGate k ev"
      for l' f' r' k ev t
    proof -
      from that lf l f assms(1) have same: "l' = l" "f' = f" "r' = r" by auto
      with that(3) f have g: "k = key" "ev < length (events w)" "events w ! ev" by auto
      have 1: "step (Resume f' t) (cs, w) =
          Some (cs(f' := Done (async_get_cache (CACHE w) t key)), w)"
        using that(3) g by (simp add: wrapper_resume_def)
      have 2: "\<exists>x. CACHE w key = Some (to_cached r', x)
          \<and> (t < x \<longrightarrow> async_get_cache (CACHE w) t key = r')" if "is_stored r'"
        using that c same(3) by (auto intro: async_get_cache_stored)
      from 1 2 show ?thesis by blast
    qed
    show ?thesis
      using n nofetch eq go by (simp; blast)
  qed
qed


lemmas wrapper_defs =
  world0_def wrapper_start_def wrapper_finish_def wrapper_resume_def async_get_cache_def
  CACHE_get_def CACHE_set_def to_cached_def ttl_of_def fetches_def CACHE_TTL_def
  CACHE_ERROR_TTL_def store_result_def release_gate_def is_stored_def

text \<open>
  C1 on a schedule: caller 0 calls, caller 1 calls, the fetch of caller 0 returns a
  dictionary, caller 1 goes on. The wrapped function has run once and both callers have
  the dictionary.
\<close>

theorem single_flight_witness:
  "\<exists>cs w. run schedule0 (\<lambda>i. Ready, world0) = Some (cs, w)
     \<and> concurrent schedule0 \<and> list_all (of_callers 0 1 ''k'') schedule0 \<and> prompt schedule0
     \<and> cs 0 = Done (Inr (PDict [(''a'', PInt 1)]))
     \<and> cs 1 = Done (Inr (PDict [(''a'', PInt 1)]))
     \<and> fetches ''k'' w = 1"
proof -
  obtain cs w where r: "run schedule0 (\<lambda>i. Ready, world0) = Some (cs, w)"
    and a: "cs 0 = Done (Inr (PDict [(''a'', PInt 1)]))"
    and b: "cs 1 = Done (Inr (PDict [(''a'', PInt 1)]))"
    by (simp add: schedule0_def wrapper_defs)
  have c: "concurrent schedule0" "list_all (of_callers 0 1 ''k'') schedule0" "prompt schedule0"
    by (simp_all add: schedule0_def is_stored_def ttl_of_def CACHE_TTL_def)
  have i: "CACHE world0 ''k'' = None" "CACHE_LOCKS world0 ''k'' = None" "(0::nat) \<noteq> 1"
    by (simp_all add: world0_def)
  from single_flight [OF i(3) i(1) i(2) r c] a
  have "fetches ''k'' w = 1" by (simp add: fetches_def world0_def)
  with r a b c show ?thesis by blast
qed

text \<open>
  C1, the claim as stated, fails when the leader is cancelled while its wrapped function
  is in progress. Caller 0 calls, caller 1 calls and waits, caller 0 is cancelled at time
  2: \<open>except Exception\<close> does not catch the \<open>CancelledError\<close>, nothing is stored,
  and the \<open>finally\<close> clause sets the event. Caller 1 goes on at time 3, reads the
  store, and returns \<open>None\<close>: the two callers have different outcomes. It also fails
  when the waiting caller goes on too late: the wrapped function of caller 0 raises at
  time 2, caller 1 goes on at time 12, when the entry has expired, and returns \<open>None\<close>.
\<close>

theorem cancelled_leader_counterexample:
  "observe ''k'' (run schedule3 start) =
     Some (Done (Inl CancelledError), Done (Inr PNone), None, [True], 1)
   \<and> observe ''k'' (run schedule5 start) =
     Some (Done (Inl (MyPermobilAPIException (PStr ''maintenance''))), Done (Inr PNone),
           Some (CExc (MyPermobilAPIException (PStr ''maintenance'')), 12), [True], 1)"
  by (simp add: observe_def start_def schedule3_def schedule5_def wrapper_defs)

text \<open>
  C6, as amended. In every reachable state, a caller that leads (its wrapped function is
  in progress) still has its event registered for the key. On every exit of the wrapped
  function, a value returned, an exception raised or the cancellation of the leader, the
  step that ends it sets the event and deletes it from \<open>CACHE_LOCKS\<close>, as the last two
  effects, and the leader gets the outcome. When the outcome is a value or an
  \<open>Exception\<close>, it is stored before the event is set, and a caller waiting on that
  event that goes on before the entry expires reads the leader's outcome from the store.
\<close>

theorem leader_stores_then_signals:
  assumes "CACHE_LOCKS w0 = Map.empty" and "run es (\<lambda>i. Ready, w0) = Some (cs, w)"
    and "cs i = AwaitFetch key"
  shows "\<exists>ev w'. CACHE_LOCKS w key = Some ev
     \<and> step (Complete i r t) (cs, w) = Some (cs(i := Done r), w')
     \<and> CACHE_LOCKS w' key = None \<and> ev < length (events w') \<and> events w' ! ev
     \<and> (\<exists>tr. trace w' = trace w @ tr @ [GateSet ev, GateDel key])
     \<and> (is_stored r \<longrightarrow>
          trace w' = trace w @ [Stored key (to_cached r) (ttl_of r), GateSet ev, GateDel key]
          \<and> CACHE w' key = Some (to_cached r, t + ttl_of r)
          \<and> (\<forall>j t'. cs j = AwaitGate key ev \<longrightarrow> t' < t + ttl_of r \<longrightarrow>
               step (Resume j t') (cs(i := Done r), w') =
                 Some ((cs(i := Done r))(j := Done r), w')))"
proof -
  from leader_has_gate [OF assms] obtain ev where
    ev: "CACHE_LOCKS w key = Some ev" "ev < length (events w)"
    by blast
  let ?w = "release_gate key ev (if is_stored r then store_result key r t w else w)"
  have st: "step (Complete i r t) (cs, w) = Some (cs(i := Done r), ?w)"
    by (simp add: assms(3) wrapper_finish_leader [OF ev(1)])
  have g: "CACHE_LOCKS ?w key = None" "ev < length (events ?w)" "events ?w ! ev"
    using ev(2) by (simp_all add: release_gate_simps store_result_simps)
  have tr: "\<exists>tr. trace ?w = trace w @ tr @ [GateSet ev, GateDel key]"
    by (simp add: release_gate_simps store_result_simps)
  have stored: "trace ?w = trace w @ [Stored key (to_cached r) (ttl_of r), GateSet ev, GateDel key]
      \<and> CACHE ?w key = Some (to_cached r, t + ttl_of r)
      \<and> (\<forall>j t'. cs j = AwaitGate key ev \<longrightarrow> t' < t + ttl_of r \<longrightarrow>
           step (Resume j t') (cs(i := Done r), ?w) =
             Some ((cs(i := Done r))(j := Done r), ?w))" if s: "is_stored r"
  proof -
    have c: "CACHE ?w key = Some (to_cached r, t + ttl_of r)"
      using s by (simp add: release_gate_simps store_result_simps CACHE_set_def)
    have res: "step (Resume j t') (cs(i := Done r), ?w) =
        Some ((cs(i := Done r))(j := Done r), ?w)"
      if "cs j = AwaitGate key ev" "t' < t + ttl_of r" for j t'
    proof -
      from that(1) assms(3) have "j \<noteq> i" by auto
      moreover have "async_get_cache (CACHE ?w) t' key = r"
        using c that(2) by (rule async_get_cache_stored)
      ultimately show ?thesis
        using that(1) g(2,3) by (simp add: wrapper_resume_def)
    qed
    have "trace ?w = trace w @ [Stored key (to_cached r) (ttl_of r), GateSet ev, GateDel key]"
      using s by (simp add: release_gate_simps store_result_simps)
    with c res show ?thesis by blast
  qed
  show ?thesis
    using ev(1) st g tr stored by (intro exI [of _ ev] exI [of _ ?w]) blast
qed

text \<open>
  C6 on a schedule: caller 0 leads, caller 1 waits, the fetch returns \<open>None\<close> at time
  5, and caller 1 goes on at time 6.
\<close>

theorem leader_stores_then_signals_witness:
  "\<exists>cs w w'. CACHE_LOCKS world0 = Map.empty
     \<and> run schedule2 (\<lambda>i. Ready, world0) = Some (cs, w)
     \<and> cs 0 = AwaitFetch ''k'' \<and> cs 1 = AwaitGate ''k'' 0 \<and> CACHE_LOCKS w ''k'' = Some 0
     \<and> is_stored (Inr PNone) \<and> 6 < 5 + ttl_of (Inr PNone)
     \<and> step (Complete 0 (Inr PNone) 5) (cs, w) = Some (cs(0 := Done (Inr PNone)), w')
     \<and> trace w' = trace w @ [Stored ''k'' (CVal PNone) CACHE_TTL, GateSet 0, GateDel ''k'']
     \<and> CACHE_LOCKS w' ''k'' = None \<and> events w' ! 0
     \<and> CACHE w' ''k'' = Some (CVal PNone, 5 + CACHE_TTL)
     \<and> step (Resume 1 6) (cs(0 := Done (Inr PNone)), w') =
         Some ((cs(0 := Done (Inr PNone)))(1 := Done (Inr PNone)), w')"
proof -
  have i: "CACHE_LOCKS world0 = Map.empty"
    by (simp add: world0_def)
  obtain cs w where r: "run schedule2 (\<lambda>i. Ready, world0) = Some (cs, w)"
    and a: "cs 0 = AwaitFetch ''k''" and b: "cs 1 = AwaitGate ''k'' 0"
    and l: "CACHE_LOCKS w ''k'' = Some 0"
    by (simp add: schedule2_def wrapper_defs)
  have s: "is_stored (Inr PNone)" "6 < 5 + ttl_of (Inr PNone)"
    by (simp_all add: is_stored_def ttl_of_def CACHE_TTL_def)
  from leader_stores_then_signals [OF i r a, of "Inr PNone" 5] l b s
  obtain w' where "step (Complete 0 (Inr PNone) 5) (cs, w) = Some (cs(0 := Done (Inr PNone)), w')"
    "trace w' = trace w @ [Stored ''k'' (CVal PNone) CACHE_TTL, GateSet 0, GateDel ''k'']"
    "CACHE_LOCKS w' ''k'' = None" "events w' ! 0"
    "CACHE w' ''k'' = Some (CVal PNone, 5 + CACHE_TTL)"
    "step (Resume 1 6) (cs(0 := Done (Inr PNone)), w') =
         Some ((cs(0 := Done (Inr PNone)))(1 := Done (Inr PNone)), w')"
    by (auto simp: to_cached_def ttl_of_def)
  with i r a b l s show ?thesis by blast
qed

text \<open>
  C6, the claim as stated, fails on the exit by cancellation. Caller 0 leads and caller 1
  waits; caller 0 is cancelled at time 1. The event is set and deleted with nothing
  stored, and caller 1, going on at once, finds no entry for the key and returns
  \<open>None\<close>. It also fails for a caller that goes on after the entry has expired: the
  wrapped function returns a dictionary at time 2, and caller 1, going on at time 302,
  gets \<open>None\<close> from the store.
\<close>

theorem cancelled_leader_empty_store_counterexample:
  "observe ''k'' (run (schedule4 @ [Resume 1 1]) start) =
     Some (Done (Inl CancelledError), Done (Inr PNone), None, [True], 1)
   \<and> observe ''k'' (run schedule6 start) =
     Some (Done (Inr (PDict [(''a'', PInt 1)])), Done (Inr PNone),
           Some (CVal (PDict [(''a'', PInt 1)]), 302), [True], 1)"
  by (simp add: observe_def start_def schedule4_def schedule6_def wrapper_defs)

text \<open>
  C3. When the wrapped function of a leader raises an exception \<open>e\<close> at time \<open>t\<close>, an
  \<open>Exception\<close> as every error that the wrapped functions raise is, the leader gets
  \<open>e\<close> and \<open>e\<close> is stored under the key until \<open>t + CACHE_ERROR_TTL\<close>, which is
  shorter than the TTL of a value. At every time before that, a call with the key raises
  that same exception, argument included, and runs no fetch; from that time on a call
  with the key starts the wrapped function again.
\<close>

theorem failure_cached_and_reraised:
  assumes "CACHE_LOCKS w0 = Map.empty" and "run es (\<lambda>i. Ready, w0) = Some (cs, w)"
    and "cs i = AwaitFetch key" and "is_exception e"
  shows "\<exists>w'. step (Complete i (Inl e) t) (cs, w) = Some (cs(i := Done (Inl e)), w')
     \<and> CACHE w' key = Some (CExc e, t + CACHE_ERROR_TTL) \<and> CACHE_ERROR_TTL < CACHE_TTL
     \<and> (\<forall>t1. t1 < t + CACHE_ERROR_TTL \<longrightarrow> wrapper_start key t1 w' = (Done (Inl e), w'))
     \<and> (\<forall>t2. t + CACHE_ERROR_TTL \<le> t2 \<longrightarrow>
          (\<exists>w''. wrapper_start key t2 w' = (AwaitFetch key, w'')
             \<and> fetches key w'' = fetches key w' + 1))"
proof -
  from leader_has_gate [OF assms(1,2,3)] obtain ev where
    ev: "CACHE_LOCKS w key = Some ev" "ev < length (events w)"
    by blast
  let ?w = "release_gate key ev (store_result key (Inl e) t w)"
  have st: "step (Complete i (Inl e) t) (cs, w) = Some (cs(i := Done (Inl e)), ?w)"
    using wrapper_finish_leader [OF ev(1), of "Inl e" t] assms(4)
    by (simp add: assms(3) is_stored_def)
  have c: "CACHE ?w key = Some (CExc e, t + CACHE_ERROR_TTL)"
    "CACHE_LOCKS ?w key = None"
    by (simp_all add: release_gate_simps store_result_simps CACHE_set_def to_cached_def
        ttl_of_def)
  have hit: "wrapper_start key t1 ?w = (Done (Inl e), ?w)" if "t1 < t + CACHE_ERROR_TTL" for t1
    using that c by (simp add: wrapper_start_def async_get_cache_def CACHE_get_def)
  have miss: "\<exists>w''. wrapper_start key t2 ?w = (AwaitFetch key, w'')
      \<and> fetches key w'' = fetches key ?w + 1" if "t + CACHE_ERROR_TTL \<le> t2" for t2
    using that c
    by (simp add: wrapper_start_def async_get_cache_def CACHE_get_def fetches_def)
  have "CACHE_ERROR_TTL < CACHE_TTL"
    by (simp add: CACHE_ERROR_TTL_def CACHE_TTL_def)
  then show ?thesis
    using st c(1) hit miss by (intro exI [of _ ?w]) simp
qed

text \<open>
  C3 on a schedule: the fetch of caller 0 raises at time 5; a call at time 14 raises the
  same exception, a call at time 15 fetches again.
\<close>

theorem failure_cached_and_reraised_witness:
  "\<exists>cs w w' w''. CACHE_LOCKS world0 = Map.empty
     \<and> run schedule2 (\<lambda>i. Ready, world0) = Some (cs, w)
     \<and> cs 0 = AwaitFetch ''k''
     \<and> is_exception (MyPermobilAPIException (PStr ''maintenance''))
     \<and> step (Complete 0 (Inl (MyPermobilAPIException (PStr ''maintenance''))) 5) (cs, w) =
         Some (cs(0 := Done (Inl (MyPermobilAPIException (PStr ''maintenance'')))), w')
     \<and> 14 < 5 + CACHE_ERROR_TTL
     \<and> wrapper_start ''k'' 14 w' =
         (Done (Inl (MyPermobilAPIException (PStr ''maintenance''))), w')
     \<and> 5 + CACHE_ERROR_TTL \<le> 15
     \<and> wrapper_start ''k'' 15 w' = (AwaitFetch ''k'', w'')
     \<and> fetches ''k'' w'' = fetches ''k'' w' + 1"
proof -
  have i: "CACHE_LOCKS world0 = Map.empty"
    by (simp add: world0_def)
  obtain cs w where r: "run schedule2 (\<lambda>i. Ready, world0) = Some (cs, w)"
    and a: "cs 0 = AwaitFetch ''k''"
    by (simp add: schedule2_def wrapper_defs)
  have x: "is_exception (MyPermobilAPIException (PStr ''maintenance''))"
    by simp
  have t: "14 < 5 + CACHE_ERROR_TTL" "5 + CACHE_ERROR_TTL \<le> 15"
    by (simp_all add: CACHE_ERROR_TTL_def)
  from failure_cached_and_reraised [OF i r a x, of 5] t
  obtain w' w'' where
    "step (Complete 0 (Inl (MyPermobilAPIException (PStr ''maintenance''))) 5) (cs, w) =
         Some (cs(0 := Done (Inl (MyPermobilAPIException (PStr ''maintenance'')))), w')"
    "wrapper_start ''k'' 14 w' =
         (Done (Inl (MyPermobilAPIException (PStr ''maintenance''))), w')"
    "wrapper_start ''k'' 15 w' = (AwaitFetch ''k'', w'')"
    "fetches ''k'' w'' = fetches ''k'' w' + 1"
    by blast
  with i r a x t show ?thesis by blast
qed

text \<open>
  A value that is true in a condition is served from the store at every time before its
  TTL is over, and fetched again from then on.
\<close>

lemma success_cached_while_truthy:
  assumes "CACHE_LOCKS w0 = Map.empty" and "run es (\<lambda>i. Ready, w0) = Some (cs, w)"
    and "cs i = AwaitFetch key" and "truthy v"
  shows "\<exists>w'. step (Complete i (Inr v) t) (cs, w) = Some (cs(i := Done (Inr v)), w')
     \<and> CACHE w' key = Some (CVal v, t + CACHE_TTL)
     \<and> (\<forall>t1. t1 < t + CACHE_TTL \<longrightarrow> wrapper_start key t1 w' = (Done (Inr v), w'))
     \<and> (\<forall>t2. t + CACHE_TTL \<le> t2 \<longrightarrow>
          (\<exists>w''. wrapper_start key t2 w' = (AwaitFetch key, w'')
             \<and> fetches key w'' = fetches key w' + 1))"
proof -
  from leader_has_gate [OF assms(1,2,3)] obtain ev where
    ev: "CACHE_LOCKS w key = Some ev" "ev < length (events w)"
    by blast
  let ?w = "release_gate key ev (store_result key (Inr v) t w)"
  have st: "step (Complete i (Inr v) t) (cs, w) = Some (cs(i := Done (Inr v)), ?w)"
    using wrapper_finish_leader [OF ev(1), of "Inr v" t]
    by (simp add: assms(3) is_stored_def)
  have c: "CACHE ?w key = Some (CVal v, t + CACHE_TTL)"
    "CACHE_LOCKS ?w key = None"
    by (simp_all add: release_gate_simps store_result_simps CACHE_set_def to_cached_def
        ttl_of_def)
  have hit: "wrapper_start key t1 ?w = (Done (Inr v), ?w)" if "t1 < t + CACHE_TTL" for t1
    using that c assms(4) by (simp add: wrapper_start_def async_get_cache_def CACHE_get_def)
  have miss: "\<exists>w''. wrapper_start key t2 ?w = (AwaitFetch key, w'')
      \<and> fetches key w'' = fetches key ?w + 1" if "t + CACHE_TTL \<le> t2" for t2
    using that c
    by (simp add: wrapper_start_def async_get_cache_def CACHE_get_def fetches_def)
  show ?thesis
    using st c(1) hit miss by (intro exI [of _ ?w]) simp
qed

text \<open>
  C2. The code at the failing input: the wrapped function of caller 0 returns the empty
  dictionary at time 1, which is stored for \<open>CACHE_TTL\<close> seconds. Caller 1 calls with
  the same key at time 2: \<open>if cached_data:\<close> is false for the empty dictionary, so the
  caller starts the wrapped function a second time.
\<close>

theorem falsy_result_fetched_again:
  "\<exists>cs w. run schedule1 (\<lambda>i. Ready, world0) = Some (cs, w)
     \<and> cs 0 = Done (Inr (PDict []))
     \<and> CACHE w ''k'' = Some (CVal (PDict []), 1 + CACHE_TTL)
     \<and> 2 \<le> 1 + CACHE_TTL
     \<and> cs 1 = AwaitFetch ''k''
     \<and> fetches ''k'' w = 2"
  by (simp add: schedule1_def wrapper_defs)

section \<open>The key of a cached call determines the call\<close>

lemma digit_index_nth: "k < 16 \<Longrightarrow> digit_index (digit_chars ! k) = k"
proof -
  have "\<forall>k \<in> set [0..<16]. digit_index (digit_chars ! k) = k"
    by (simp add: digit_index_def digit_chars_def upt_rec)
  then show "k < 16 \<Longrightarrow> digit_index (digit_chars ! k) = k"
    by simp
qed

lemma digit_chars_nth_mem: "k < 16 \<Longrightarrow> digit_chars ! k \<in> set digit_chars"
proof -
  have "length digit_chars = 16" by (simp add: digit_chars_def)
  then show "k < 16 \<Longrightarrow> digit_chars ! k \<in> set digit_chars"
    using nth_mem [of k digit_chars] by simp
qed

lemma numeral_value_digits:
  "2 \<le> b \<Longrightarrow> b \<le> 16 \<Longrightarrow> numeral_value b (digits b n) = n"
proof (induction b n rule: digits.induct)
  case (1 b n)
  show ?case
  proof (cases "n < b")
    case True
    with 1(3) have "n < 16" by simp
    with True 1(2) show ?thesis
      by (subst digits.simps) (simp add: numeral_value_def digit_index_nth)
  next
    case False
    with 1 have ih: "numeral_value b (digits b (n div b)) = n div b" by simp
    have "n mod b < b" using 1(2) by simp
    with 1(3) have "n mod b < 16" by linarith
    then have "digit_index (digit_chars ! (n mod b)) = n mod b"
      by (rule digit_index_nth)
    with False 1(2) ih show ?thesis
      by (subst digits.simps) (simp add: numeral_value_def)
  qed
qed

lemma digits_chars:
  "2 \<le> b \<Longrightarrow> b \<le> 16 \<Longrightarrow> digits b n \<noteq> [] \<and> set (digits b n) \<subseteq> set digit_chars"
proof (induction b n rule: digits.induct)
  case (1 b n)
  show ?case
  proof (cases "n < b")
    case True
    with 1(3) have "n < 16" by simp
    with True show ?thesis
      by (subst (1 2) digits.simps) (simp add: digit_chars_nth_mem)
  next
    case False
    with 1 have ih: "set (digits b (n div b)) \<subseteq> set digit_chars" by simp
    have "n mod b < b" using 1(2) by simp
    with 1(3) have "n mod b < 16" by linarith
    then have "digit_chars ! (n mod b) \<in> set digit_chars"
      by (rule digit_chars_nth_mem)
    with False 1(2) ih show ?thesis
      by (subst (1 2) digits.simps) simp
  qed
qed

lemma takeWhile_all_then:
  assumes "\<forall>x \<in> set xs. P x" and "r = [] \<or> \<not> P (hd r)"
  shows "takeWhile P (xs @ r) = xs"
  using assms by (cases r) (simp_all add: takeWhile_append2)

lemma stop_chars_nodigit:
  "CHR '','' \<notin> set digit_chars" "CHR '')'' \<notin> set digit_chars"
  "CHR '']'' \<notin> set digit_chars" "CHR ''}'' \<notin> set digit_chars"
  "CHR ''>'' \<notin> set digit_chars"
  by (simp_all add: digit_chars_def)

lemma stop_nodigit: "stop r \<Longrightarrow> nodigit r"
proof (cases r)
  case Nil
  then show ?thesis by (simp add: nodigit_def)
next
  case (Cons c t)
  assume "stop r"
  with Cons have "c = CHR '','' \<or> c = CHR '')'' \<or> c = CHR '']'' \<or> c = CHR ''}''
      \<or> c = CHR ''>''"
    by (simp add: stop_def stopc_def)
  then have "c \<notin> set digit_chars"
    using stop_chars_nodigit by blast
  with Cons show ?thesis by (simp add: nodigit_def)
qed

lemma digits_delimited:
  assumes "2 \<le> b" and "b \<le> 16" and "digits b n @ r = digits b m @ s"
    and "nodigit r" and "nodigit s"
  shows "n = m \<and> r = s"
proof -
  let ?P = "\<lambda>c. c \<in> set digit_chars"
  have n: "takeWhile ?P (digits b n @ r) = digits b n"
    using digits_chars [OF assms(1,2), of n] assms(4)
    by (intro takeWhile_all_then) (auto simp: nodigit_def)
  have m: "takeWhile ?P (digits b m @ s) = digits b m"
    using digits_chars [OF assms(1,2), of m] assms(5)
    by (intro takeWhile_all_then) (auto simp: nodigit_def)
  from n m assms(3) have e: "digits b n = digits b m" by simp
  then have "numeral_value b (digits b n) = numeral_value b (digits b m)" by simp
  then have "n = m" by (simp add: numeral_value_digits [OF assms(1,2)])
  with e assms(3) show ?thesis by simp
qed

lemma byte_split:
  "char_of (16 * digit_index (digit_chars ! (of_char c div 16))
     + digit_index (digit_chars ! (of_char c mod 16))) = c"
proof -
  have "(of_char c :: nat) mod 256 = of_char c"
    by simp
  then have "(of_char c :: nat) < 256"
    by (metis mod_less_divisor zero_less_numeral)
  then have "(of_char c :: nat) div 16 < 16"
    by arith
  then have 1: "digit_index (digit_chars ! (of_char c div 16)) = of_char c div 16"
    by (rule digit_index_nth)
  have "(of_char c :: nat) mod 16 < 16"
    by simp
  then have 2: "digit_index (digit_chars ! (of_char c mod 16)) = of_char c mod 16"
    by (rule digit_index_nth)
  have "char_of (16 * ((of_char c :: nat) div 16) + of_char c mod 16) = c"
    by (simp only: mult_div_mod_eq char_of_char)
  then show ?thesis
    by (simp only: 1 2)
qed

lemma unescape_escape:
  assumes "is_quote q"
  shows "unescape (escape q c @ x) = (c, x)"
proof -
  have q: "q \<noteq> CHR 0x5C" "q \<noteq> CHR ''t''" "q \<noteq> CHR ''n''" "q \<noteq> CHR ''r''" "q \<noteq> CHR ''x''"
    using assms by (auto simp: is_quote_def)
  consider "c = q" | "c = CHR 0x5C" | "c = CHR 0x09" | "c = CHR 0x0A" | "c = CHR 0x0D"
    | "c \<noteq> q" "c \<noteq> CHR 0x5C" "c \<noteq> CHR 0x09" "c \<noteq> CHR 0x0A" "c \<noteq> CHR 0x0D" "unprintable c"
    | "c \<noteq> q" "c \<noteq> CHR 0x5C" "c \<noteq> CHR 0x09" "c \<noteq> CHR 0x0A" "c \<noteq> CHR 0x0D" "\<not> unprintable c"
    by blast
  then show ?thesis
  proof cases
    case 1
    with q show ?thesis by (simp add: escape_def unescape_def)
  next
    case 2
    then show ?thesis by (simp add: escape_def unescape_def)
  next
    case 3
    with q show ?thesis by (simp add: escape_def unescape_def)
  next
    case 4
    with q show ?thesis by (simp add: escape_def unescape_def)
  next
    case 5
    with q show ?thesis by (simp add: escape_def unescape_def)
  next
    case 6
    then have "escape q c = [CHR 0x5C, CHR ''x'', digit_chars ! (of_char c div 16),
        digit_chars ! (of_char c mod 16)]"
      by (simp add: escape_def)
    then show ?thesis
      by (simp add: unescape_def byte_split)
  next
    case 7
    then show ?thesis by (simp add: escape_def unescape_def)
  qed
qed

lemma escape_hd: "is_quote q \<Longrightarrow> escape q c \<noteq> [] \<and> hd (escape q c) \<noteq> q"
  by (auto simp: escape_def is_quote_def)

lemma escape_prefix_code:
  assumes "is_quote q" and "escape q c @ x = escape q d @ y"
  shows "c = d \<and> x = y"
proof -
  from assms(2) have "unescape (escape q c @ x) = unescape (escape q d @ y)"
    by simp
  then show ?thesis
    by (simp add: unescape_escape [OF assms(1)])
qed

lemma body_delimited:
  assumes "is_quote q"
  shows "concat (map (escape q) s) @ q # r = concat (map (escape q) s') @ q # r' \<Longrightarrow>
    s = s' \<and> r = r'"
proof (induction s arbitrary: s')
  case Nil
  show ?case
  proof (cases s')
    case Nil
    with Nil.prems show ?thesis by simp
  next
    case (Cons d t)
    obtain e es where "escape q d = e # es" "e \<noteq> q"
      using escape_hd [OF assms, of d] by (cases "escape q d") auto
    with Nil.prems Cons show ?thesis by simp
  qed
next
  case (Cons c t)
  show ?case
  proof (cases s')
    case Nil
    obtain e es where "escape q c = e # es" "e \<noteq> q"
      using escape_hd [OF assms, of c] by (cases "escape q c") auto
    with Cons.prems Nil show ?thesis by simp
  next
    case (Cons d t')
    with Cons.prems have "escape q c @ (concat (map (escape q) t) @ q # r) =
        escape q d @ (concat (map (escape q) t') @ q # r')"
      by simp
    from escape_prefix_code [OF assms this]
    have "c = d" and "concat (map (escape q) t) @ q # r = concat (map (escape q) t') @ q # r'"
      by simp_all
    with Cons.IH [of t'] Cons show ?thesis by simp
  qed
qed

lemma is_quote_quote_of: "is_quote (quote_of s)"
  by (simp add: quote_of_def is_quote_def)

lemma repr_str_delimited:
  assumes "repr_str s @ r = repr_str s' @ r'"
  shows "s = s' \<and> r = r'"
proof -
  from assms have q: "quote_of s = quote_of s'"
    by (simp add: repr_str_def)
  from assms have "concat (map (escape (quote_of s)) s) @ quote_of s # r =
      concat (map (escape (quote_of s)) s') @ quote_of s # r'"
    by (simp add: repr_str_def q)
  then show ?thesis
    by (rule body_delimited [OF is_quote_quote_of])
qed

lemma join_Cons: "join (x # xs) = x @ (if xs = [] then [] else '', '' @ join xs)"
  by (cases xs) simp_all

lemma digits_hd:
  "hd (digits 10 n) \<in> set digit_chars \<and> digits 10 n \<noteq> []"
  using digits_chars [of 10 n] by (cases "digits 10 n") auto

lemma ctor_of_char_digit: "c \<in> set digit_chars \<Longrightarrow> ctor_of_char c = 3"
proof -
  have "CHR ''N'' \<notin> set digit_chars" "CHR ''T'' \<notin> set digit_chars"
    "CHR ''F'' \<notin> set digit_chars"
    by (simp_all add: digit_chars_def)
  then show "c \<in> set digit_chars \<Longrightarrow> ctor_of_char c = 3"
    unfolding ctor_of_char_def by auto
qed

lemma ctor_of_char_quote: "is_quote c \<Longrightarrow> ctor_of_char c = 4"
proof -
  have "ctor_of_char CHR 0x27 = 4" "ctor_of_char CHR 0x22 = 4"
    by (simp_all add: ctor_of_char_def is_quote_def digit_chars_def)
  then show "is_quote c \<Longrightarrow> ctor_of_char c = 4"
    unfolding is_quote_def by blast
qed

lemma ctor_of_char_simps:
  "ctor_of_char CHR ''N'' = 1" "ctor_of_char CHR ''T'' = 2" "ctor_of_char CHR ''F'' = 2"
  "ctor_of_char CHR ''-'' = 3" "ctor_of_char CHR ''['' = 5" "ctor_of_char CHR ''{'' = 6"
  "ctor_of_char CHR ''<'' = 7"
  by (simp_all add: ctor_of_char_def digit_chars_def is_quote_def)

lemma py_repr_hd: "py_repr v \<noteq> [] \<and> ctor_of_char (hd (py_repr v)) = ctor v"
proof (cases v)
  case PNone
  then show ?thesis by (simp add: ctor_of_char_simps)
next
  case (PBool b)
  then show ?thesis by (simp add: ctor_of_char_simps)
next
  case (PInt i)
  show ?thesis
  proof (cases "i < 0")
    case True
    with PInt show ?thesis by (simp add: ctor_of_char_simps)
  next
    case False
    with PInt show ?thesis
      using digits_hd [of "nat i"] by (simp add: ctor_of_char_digit)
  qed
next
  case (PStr x)
  then show ?thesis
    using is_quote_quote_of [of x] by (simp add: repr_str_def ctor_of_char_quote)
next
  case (PList vs)
  then show ?thesis by (simp add: ctor_of_char_simps)
next
  case (PDict kvs)
  then show ?thesis by (simp add: ctor_of_char_simps)
next
  case (PObj a)
  then show ?thesis by (simp add: ctor_of_char_simps)
qed

lemma ctor_of_stopc: "stopc c \<Longrightarrow> ctor_of_char c = 0"
proof -
  have "ctor_of_char CHR '','' = 0" "ctor_of_char CHR '')'' = 0" "ctor_of_char CHR '']'' = 0"
    "ctor_of_char CHR ''}'' = 0"
    by (simp_all add: ctor_of_char_def digit_chars_def is_quote_def)
  then show "stopc c \<Longrightarrow> ctor_of_char c = 0"
    unfolding stopc_def by blast
qed

lemma ctor_pos: "0 < ctor v"
  by (cases v) simp_all

lemma py_repr_not_stopc: "py_repr v \<noteq> [] \<and> \<not> stopc (hd (py_repr v))"
  using py_repr_hd [of v] ctor_of_stopc [of "hd (py_repr v)"] ctor_pos [of v] by auto

lemma same_ctor:
  assumes "py_repr v @ r = py_repr w @ s"
  shows "ctor v = ctor w"
proof -
  from assms have "hd (py_repr v @ r) = hd (py_repr w @ s)" by simp
  then have "hd (py_repr v) = hd (py_repr w)"
    using py_repr_hd [of v] py_repr_hd [of w] by simp
  then show ?thesis
    using py_repr_hd [of v] py_repr_hd [of w] by metis
qed

lemma stop_Cons: "stopc c \<Longrightarrow> stop (c # r)"
  by (simp add: stop_def)

lemma join_delimited:
  assumes hd: "\<And>y. enc y \<noteq> [] \<and> \<not> stopc (hd (enc y))"
    and c: "stopc c" "c \<noteq> CHR '',''"
  shows "(\<And>x y r s. x \<in> set xs \<Longrightarrow> enc x @ r = enc y @ s \<Longrightarrow> stop r \<Longrightarrow> stop s \<Longrightarrow>
            x = y \<and> r = s) \<Longrightarrow>
    join (map enc xs) @ c # r = join (map enc ys) @ c # s \<Longrightarrow> xs = ys \<and> r = s"
proof (induction xs arbitrary: ys)
  case Nil
  show ?case
  proof (cases ys)
    case Nil
    with Nil.prems(2) show ?thesis by simp
  next
    case (Cons y ys')
    obtain e es where e: "enc y = e # es" "\<not> stopc e"
      using hd [of y] by (cases "enc y") auto
    from Nil.prems(2) Cons have "c = e"
      by (simp add: join_Cons e)
    with c(1) e(2) show ?thesis by simp
  qed
next
  case (Cons x xs')
  show ?case
  proof (cases ys)
    case Nil
    obtain e es where e: "enc x = e # es" "\<not> stopc e"
      using hd [of x] by (cases "enc x") auto
    from Cons.prems(2) Nil have "e = c"
      by (simp add: join_Cons e)
    with c(1) e(2) show ?thesis by simp
  next
    case (Cons y ys')
    let ?R = "\<lambda>zs t. (if zs = [] then [] else '', '' @ join (map enc zs)) @ c # t"
    have eq: "enc x @ ?R xs' r = enc y @ ?R ys' s"
      using Cons.prems(2) Cons by (simp add: join_Cons)
    have st: "stop (?R xs' r)" "stop (?R ys' s)"
      using c(1) by (simp_all add: stop_def stopc_def)
    from Cons.prems(1) [OF _ eq st] have xy: "x = y" and R: "?R xs' r = ?R ys' s"
      by simp_all
    show ?thesis
    proof (cases "xs' = []")
      case True
      show ?thesis
      proof (cases "ys' = []")
        case True
        with \<open>xs' = []\<close> R xy Cons show ?thesis by simp
      next
        case False
        with True R c(2) show ?thesis by simp
      qed
    next
      case False
      show ?thesis
      proof (cases "ys' = []")
        case True
        with False R c(2) show ?thesis by simp
      next
        case ys: False
        with False R have "join (map enc xs') @ c # r = join (map enc ys') @ c # s"
          by simp
        then have "xs' = ys' \<and> r = s"
        proof (rule Cons.IH [rotated])
          fix x' y' r' s'
          assume "x' \<in> set xs'" "enc x' @ r' = enc y' @ s'" "stop r'" "stop s'"
          then show "x' = y' \<and> r' = s'"
            using Cons.prems(1) [of x' r' y' s'] by simp
        qed
        with xy Cons show ?thesis by simp
      qed
    qed
  qed
qed

lemma minus_not_digit: "CHR ''-'' \<notin> set digit_chars"
  by (simp add: digit_chars_def)

lemma digits_not_minus: "digits 10 n @ t \<noteq> CHR ''-'' # u"
proof
  assume "digits 10 n @ t = CHR ''-'' # u"
  then have "hd (digits 10 n) = CHR ''-''"
    using digits_hd [of n] by (cases "digits 10 n") auto
  then show False
    using digits_hd [of n] minus_not_digit by simp
qed

lemma repr_int_delimited:
  assumes "py_repr (PInt i) @ r = py_repr (PInt j) @ s" and "stop r" and "stop s"
  shows "i = j \<and> r = s"
proof -
  have nd: "nodigit r" "nodigit s"
    using assms(2,3) by (simp_all add: stop_nodigit)
  have two: "(2::nat) \<le> 10" "(10::nat) \<le> 16"
    by simp_all
  show ?thesis
  proof (cases "i < 0")
    case True
    show ?thesis
    proof (cases "j < 0")
      case j: True
      from assms(1) True j have "digits 10 (nat (- i)) @ r = digits 10 (nat (- j)) @ s"
        by simp
      from digits_delimited [OF two this nd] True j show ?thesis
        by auto
    next
      case False
      from assms(1) True False have "digits 10 (nat j) @ s = CHR ''-'' # digits 10 (nat (- i)) @ r"
        by simp
      with digits_not_minus show ?thesis by blast
    qed
  next
    case False
    show ?thesis
    proof (cases "j < 0")
      case True
      from assms(1) True False have "digits 10 (nat i) @ r = CHR ''-'' # digits 10 (nat (- j)) @ s"
        by simp
      with digits_not_minus show ?thesis by blast
    next
      case j: False
      from assms(1) False j have "digits 10 (nat i) @ r = digits 10 (nat j) @ s"
        by simp
      from digits_delimited [OF two this nd] False j show ?thesis
        by auto
    qed
  qed
qed

lemma repr_obj_delimited:
  assumes "py_repr (PObj a) @ r = py_repr (PObj b) @ s"
  shows "a = b \<and> r = s"
proof -
  from assms have "digits 16 a @ CHR ''>'' # r = digits 16 b @ CHR ''>'' # s"
    by simp
  moreover have "nodigit (CHR ''>'' # r)" "nodigit (CHR ''>'' # s)"
    by (simp_all add: nodigit_def stop_chars_nodigit)
  ultimately show ?thesis
    using digits_delimited [of 16 a "CHR ''>'' # r" b "CHR ''>'' # s"] by simp
qed

lemma stopc_simps: "stopc CHR '']''" "stopc CHR ''}''" "stopc CHR '')''" "stopc CHR '',''"
  by (simp_all add: stopc_def)

lemma item_not_stopc:
  "repr_str k @ '': '' @ py_repr v \<noteq> [] \<and> \<not> stopc (hd (repr_str k @ '': '' @ py_repr v))"
  using is_quote_quote_of [of k] by (auto simp: repr_str_def is_quote_def stopc_def)

lemma py_repr_delimited:
  "py_repr v @ r = py_repr w @ s \<Longrightarrow> stop r \<Longrightarrow> stop s \<Longrightarrow> v = w \<and> r = s"
proof (induction v arbitrary: w r s)
  case PNone
  from same_ctor [OF PNone(1)] have "w = PNone" by (cases w) simp_all
  with PNone(1) show ?case by simp
next
  case (PBool b)
  from same_ctor [OF PBool(1)] obtain b' where w: "w = PBool b'" by (cases w) simp_all
  with PBool(1) show ?case by (cases b; cases b') simp_all
next
  case (PInt i)
  from same_ctor [OF PInt(1)] obtain j where w: "w = PInt j" by (cases w) simp_all
  with repr_int_delimited [of i r j s] PInt show ?case by simp
next
  case (PStr x)
  from same_ctor [OF PStr(1)] obtain y where w: "w = PStr y" by (cases w) simp_all
  with repr_str_delimited [of x r y s] PStr(1) show ?case by simp
next
  case (PList vs)
  from same_ctor [OF PList(2)] obtain ws where w: "w = PList ws" by (cases w) simp_all
  with PList(2) have "join (map py_repr vs) @ CHR '']'' # r = join (map py_repr ws) @ CHR '']'' # s"
    by simp
  then have "vs = ws \<and> r = s"
  proof (rule join_delimited [where enc = py_repr, rotated 4])
    fix x y r' s'
    assume "x \<in> set vs" "py_repr x @ r' = py_repr y @ s'" "stop r'" "stop s'"
    then show "x = y \<and> r' = s'" by (rule PList.IH)
  qed (simp_all add: py_repr_not_stopc stopc_simps)
  with w show ?case by simp
next
  case (PDict kvs)
  from same_ctor [OF PDict(2)] obtain kws where w: "w = PDict kws" by (cases w) simp_all
  let ?enc = "\<lambda>kv. repr_str (fst kv) @ '': '' @ py_repr (snd kv)"
  from w PDict(2) have "join (map ?enc kvs) @ CHR ''}'' # r = join (map ?enc kws) @ CHR ''}'' # s"
    by simp
  then have "kvs = kws \<and> r = s"
  proof (rule join_delimited [where enc = ?enc, rotated 4])
    fix x y r' s'
    assume x: "x \<in> set kvs" and e: "?enc x @ r' = ?enc y @ s'" and st: "stop r'" "stop s'"
    from e have "repr_str (fst x) @ ('': '' @ py_repr (snd x) @ r') =
        repr_str (fst y) @ ('': '' @ py_repr (snd y) @ s')"
      by simp
    from repr_str_delimited [OF this]
    have k: "fst x = fst y" and v: "py_repr (snd x) @ r' = py_repr (snd y) @ s'"
      by simp_all
    have "snd x \<in> Basic_BNFs.snds x"
      by (cases x) simp
    from PDict.IH [OF x this v st] k show "x = y \<and> r' = s'"
      by (simp add: prod_eq_iff)
  qed (insert item_not_stopc, simp_all add: stopc_simps)
  with w show ?case by simp
next
  case (PObj a)
  from same_ctor [OF PObj(1)] obtain b where w: "w = PObj b" by (cases w) simp_all
  with repr_obj_delimited [of a r b s] PObj(1) show ?case by simp
qed

lemma str_tuple_Cons:
  "str_tuple (x # xs) =
     CHR ''('' # py_repr x @ (if xs = [] then '',)'' else '', '' @ join (map py_repr xs) @ '')'')"
proof (cases xs)
  case Nil
  then show ?thesis by simp
next
  case (Cons y ys)
  then show ?thesis by (simp add: join_Cons)
qed

lemma str_tuple_delimited:
  assumes "str_tuple a @ r = str_tuple b @ s"
  shows "a = b \<and> r = s"
proof (cases a)
  case Nil
  show ?thesis
  proof (cases b)
    case b: Nil
    with Nil assms show ?thesis by simp
  next
    case (Cons y ys)
    obtain e es where e: "py_repr y = e # es" "\<not> stopc e"
      using py_repr_not_stopc [of y] by (cases "py_repr y") auto
    from assms Nil Cons have "e = CHR '')''"
      by (simp add: str_tuple_Cons e)
    with e(2) show ?thesis by (simp add: stopc_def)
  qed
next
  case (Cons x xs)
  show ?thesis
  proof (cases b)
    case Nil
    obtain e es where e: "py_repr x = e # es" "\<not> stopc e"
      using py_repr_not_stopc [of x] by (cases "py_repr x") auto
    from assms Nil Cons have "e = CHR '')''"
      by (simp add: str_tuple_Cons e)
    with e(2) show ?thesis by (simp add: stopc_def)
  next
    case b: (Cons y ys)
    let ?T = "\<lambda>zs t. (if zs = [] then '',)'' else '', '' @ join (map py_repr zs) @ '')'') @ t"
    from assms Cons b have eq: "py_repr x @ ?T xs r = py_repr y @ ?T ys s"
      by (simp add: str_tuple_Cons)
    have "stop (?T xs r)" "stop (?T ys s)"
      by (simp_all add: stop_def stopc_def)
    from py_repr_delimited [OF eq this] have xy: "x = y" and T: "?T xs r = ?T ys s"
      by simp_all
    show ?thesis
    proof (cases "xs = []")
      case True
      show ?thesis
      proof (cases "ys = []")
        case ys: True
        with True T xy Cons b show ?thesis by simp
      next
        case False
        with True T show ?thesis by simp
      qed
    next
      case False
      show ?thesis
      proof (cases "ys = []")
        case True
        with False T show ?thesis by simp
      next
        case ys: False
        with False T have "join (map py_repr xs) @ CHR '')'' # r = join (map py_repr ys) @ CHR '')'' # s"
          by simp
        then have "xs = ys \<and> r = s"
        proof (rule join_delimited [where enc = py_repr, rotated 4])
          fix x' y' r' s'
          assume "py_repr x' @ r' = py_repr y' @ s'" "stop r'" "stop s'"
          then show "x' = y' \<and> r' = s'" by (rule py_repr_delimited)
        qed (simp_all add: py_repr_not_stopc stopc_simps)
        with xy Cons b show ?thesis by simp
      qed
    qed
  qed
qed

lemma split_at_first:
  assumes "c \<notin> set xs" and "c \<notin> set ys" and "xs @ c # r = ys @ c # s"
  shows "xs = ys \<and> r = s"
proof -
  have "takeWhile (\<lambda>x. x \<noteq> c) (xs @ c # r) = xs" "takeWhile (\<lambda>x. x \<noteq> c) (ys @ c # s) = ys"
    using assms(1,2) by (auto simp: takeWhile_tail)
  with assms(3) have "xs = ys" by simp
  with assms(3) show ?thesis by simp
qed

lemma str_tuple_hd: "\<exists>t. str_tuple a = CHR ''('' # t"
  by (cases a) (simp_all add: str_tuple_Cons)

text \<open>
  C9. The key is a function of the name of the operation, its positional arguments and
  its keyword arguments, in the order they are written in the call. For names without an
  opening parenthesis, as the name of every Python function is, two calls have the same
  key exactly when they have the same name, the same positional arguments and the same
  keyword arguments: equal calls map to the same key, and calls that differ in the
  operation or in any argument map to different keys. The client object counts as the
  same argument when its address is the same, which is all that the key shows of it.
\<close>

theorem cache_key_injective:
  assumes "CHR ''('' \<notin> set name" and "CHR ''('' \<notin> set name'"
  shows "cache_key name args kwargs = cache_key name' args' kwargs' \<longleftrightarrow>
    name = name' \<and> args = args' \<and> kwargs = kwargs'"
proof
  assume eq: "cache_key name args kwargs = cache_key name' args' kwargs'"
  obtain t where t: "str_tuple args = CHR ''('' # t"
    using str_tuple_hd by blast
  obtain t' where t': "str_tuple args' = CHR ''('' # t'"
    using str_tuple_hd by blast
  from eq have "name @ CHR ''('' # (t @ py_repr (PDict kwargs)) =
      name' @ CHR ''('' # (t' @ py_repr (PDict kwargs'))"
    by (simp add: cache_key_def t t')
  from split_at_first [OF assms this]
  have n: "name = name'" and "t @ py_repr (PDict kwargs) = t' @ py_repr (PDict kwargs')"
    by simp_all
  then have "str_tuple args @ py_repr (PDict kwargs) = str_tuple args' @ py_repr (PDict kwargs')"
    by (simp add: t t')
  from str_tuple_delimited [OF this]
  have a: "args = args'" and "py_repr (PDict kwargs) @ [] = py_repr (PDict kwargs') @ []"
    by simp_all
  from py_repr_delimited [OF this(2)] have "kwargs = kwargs'"
    by (simp add: stop_def)
  with n a show "name = name' \<and> args = args' \<and> kwargs = kwargs'"
    by simp
next
  assume "name = name' \<and> args = args' \<and> kwargs = kwargs'"
  then show "cache_key name args kwargs = cache_key name' args' kwargs'"
    by simp
qed

text \<open>
  C9 on calls of the two cacheable operations: a different keyword argument, a different
  operation, and an argument passed by position or by keyword give different keys; the
  key of one call, written out.
\<close>

theorem cache_key_injective_witness:
  "CHR ''('' \<notin> set ''request_regions'' \<and> CHR ''('' \<notin> set ''request_endpoint''
   \<and> cache_key ''request_regions'' [PObj 10] [(''include_icons'', PBool False)] \<noteq>
       cache_key ''request_regions'' [PObj 10] [(''include_icons'', PBool True)]
   \<and> cache_key ''request_regions'' [PObj 10] [] \<noteq> cache_key ''request_endpoint'' [PObj 10] []
   \<and> cache_key ''request_endpoint'' [PObj 10, PStr ''/a''] [] \<noteq>
       cache_key ''request_endpoint'' [PObj 10] [(''endpoint'', PStr ''/a'')]
   \<and> cache_key ''request_endpoint'' [PObj 10, PStr ''/a''] [] =
       ''request_endpoint(<mypermobil.mypermobil.MyPermobil object at 0xa>, '' @
       [CHR 0x27] @ ''/a'' @ [CHR 0x27] @ ''){}''"
proof -
  have n: "CHR ''('' \<notin> set ''request_regions''" "CHR ''('' \<notin> set ''request_endpoint''"
    by simp_all
  have k: "cache_key ''request_endpoint'' [PObj 10, PStr ''/a''] [] =
       ''request_endpoint(<mypermobil.mypermobil.MyPermobil object at 0xa>, '' @
       [CHR 0x27] @ ''/a'' @ [CHR 0x27] @ ''){}''"
    by (simp add: cache_key_def repr_str_def quote_of_def escape_def unprintable_def
        digits.simps digit_chars_def)
  show ?thesis
    using n k
      cache_key_injective [OF n(1) n(1), of "[PObj 10]" "[(''include_icons'', PBool False)]"
        "[PObj 10]" "[(''include_icons'', PBool True)]"]
      cache_key_injective [OF n(1) n(2), of "[PObj 10]" "[]" "[PObj 10]" "[]"]
      cache_key_injective [OF n(2) n(2), of "[PObj 10, PStr ''/a'']" "[]" "[PObj 10]"
        "[(''endpoint'', PStr ''/a'')]"]
    by simp
qed

end
